theory Spec2Isabelle
  imports Complex_Main "HOL-Library.Word"
begin

unbundle bit_operations_syntax

section \<open>Strings and text utilities (text.js)\<close>

text \<open>
  A JavaScript string is a sequence of UTF-16 code units; \<open>charCodeAt\<close> reads one
  code unit, so the hash below folds over 16-bit values.
\<close>

type_synonym jsstring = "16 word list"

text \<open>
  The code units matched by the regular expression class \<open>\s\<close> and stripped by
  \<open>String.prototype.trim\<close> (ECMAScript WhiteSpace and LineTerminator: the two sets
  coincide).
\<close>

definition isSpace :: "16 word \<Rightarrow> bool" where
  "isSpace c \<longleftrightarrow>
     c = 0x0009 \<or> c = 0x000A \<or> c = 0x000B \<or> c = 0x000C \<or> c = 0x000D \<or> c = 0x0020 \<or>
     c = 0x00A0 \<or> c = 0x1680 \<or> (0x2000 \<le> c \<and> c \<le> 0x200A) \<or> c = 0x2028 \<or>
     c = 0x2029 \<or> c = 0x202F \<or> c = 0x205F \<or> c = 0x3000 \<or> c = 0xFEFF"

text \<open>\<open>s.replace(/\s+/g, ' ')\<close>: every maximal run of white space becomes one space.\<close>

function collapseSpaces :: "jsstring \<Rightarrow> jsstring" where
  "collapseSpaces [] = []"
| "collapseSpaces (c # cs) =
     (if isSpace c then 0x0020 # collapseSpaces (dropWhile isSpace cs)
      else c # collapseSpaces cs)"
  by pat_completeness auto
termination
  by (relation "measure length") (auto simp: length_dropWhile_le less_Suc_eq_le)

text \<open>\<open>s.trim()\<close>: white space is removed from both ends.\<close>

definition trim :: "jsstring \<Rightarrow> jsstring" where
  "trim s = rev (dropWhile isSpace (rev (dropWhile isSpace s)))"

text \<open>
  \<open>normalizeText(s)\<close>: \<open>if (!s) return ''\<close>, then collapse and trim. The empty
  string is the only falsy string.
\<close>

definition normalizeText :: "jsstring \<Rightarrow> jsstring" where
  "normalizeText s = (if s = [] then [] else trim (collapseSpaces s))"

text \<open>
  One round of the loop of \<open>stringHash\<close>:
  \<open>hash = ((hash << 5) - hash) + chr; hash |= 0\<close>. The value is kept as a 32-bit
  integer, so the arithmetic is that of \<open>32 word\<close>.
\<close>

definition hashStep :: "32 word \<Rightarrow> 16 word \<Rightarrow> 32 word" where
  "hashStep h chr = (push_bit 5 h - h) + ucast chr"

text \<open>\<open>stringHash(str)\<close> returns \<open>hash >>> 0\<close>, the unsigned reading of the word.\<close>

definition stringHash :: "jsstring \<Rightarrow> nat" where
  "stringHash str = unat (foldl hashStep 0 (normalizeText str))"


text \<open>
  The shape of a text in which white space occurs only as single spaces (used to show that
  \<open>normalizeText\<close> is idempotent).
\<close>

fun okText :: "jsstring \<Rightarrow> bool" where
  "okText [] = True"
| "okText (c # cs) =
     ((isSpace c \<longrightarrow> c = 0x0020 \<and> (case cs of [] \<Rightarrow> True | d # _ \<Rightarrow> \<not> isSpace d)) \<and> okText cs)"

text \<open>String literals of the examples, as code units.\<close>

definition js :: "string \<Rightarrow> jsstring" where
  "js s = map (\<lambda>c. of_nat (of_char c)) s"

section \<open>Vector helpers (vectors.js)\<close>

text \<open>
  JavaScript numbers are idealised as real numbers throughout: rounding, overflow and
  underflow of IEEE doubles are outside the model. A vector element is represented by the
  number that the coercion \<open>+x || 0\<close> yields for it, so that the coercion is the identity.
  The argument of \<open>cosineSimilarity\<close> is \<open>None\<close> when it is not an array
  (\<open>safeArray\<close> returns \<open>null\<close>).
\<close>

type_synonym vec = "real list"

text \<open>The loop \<open>for (i = 0; i < len; i++) { dot += ai*bi; na += ai*ai; nb += bi*bi }\<close>.\<close>

definition cosineStep :: "vec \<Rightarrow> vec \<Rightarrow> real \<times> real \<times> real \<Rightarrow> nat \<Rightarrow> real \<times> real \<times> real" where
  "cosineStep va vb acc i =
     (case acc of (dot, na, nb) \<Rightarrow>
        (dot + va ! i * vb ! i, na + va ! i * va ! i, nb + vb ! i * vb ! i))"

definition cosineSimilarity :: "vec option \<Rightarrow> vec option \<Rightarrow> real" where
  "cosineSimilarity a b =
     (case (a, b) of
        (Some va, Some vb) \<Rightarrow>
          if length va = 0 \<or> length vb = 0 then 0
          else
            let len = min (length va) (length vb) in
            (case foldl (cosineStep va vb) (0, 0, 0) [0..<len] of
               (dot, na, nb) \<Rightarrow>
                 if na = 0 \<or> nb = 0 then 0 else dot / (sqrt na * sqrt nb))
      | _ \<Rightarrow> 0)"



text \<open>An item \<open>{text, embedding}\<close>; an embedding that is missing or not an array is \<open>None\<close>.\<close>

record item =
  i_text :: jsstring
  embedding :: "vec option"

text \<open>
  \<open>computeCentroid(items)\<close>: the component-wise mean of the embeddings that are arrays
  of the dimension of the first item's embedding; \<open>None\<close> is \<open>null\<close>.
\<close>

definition usableEmbeddings :: "nat \<Rightarrow> item list \<Rightarrow> vec list" where
  "usableEmbeddings edim its =
     concat (map (\<lambda>it. case embedding it of
                          Some e \<Rightarrow> if length e = edim then [e] else []
                        | None \<Rightarrow> []) its)"

definition computeCentroid :: "item list \<Rightarrow> vec option" where
  "computeCentroid its =
     (case its of
        [] \<Rightarrow> None
      | it0 # _ \<Rightarrow>
          let edim = (case embedding it0 of None \<Rightarrow> 0 | Some e \<Rightarrow> length e) in
          if edim = 0 then None
          else
            let es = usableEmbeddings edim its; count = length es in
            if count = 0 then None
            else Some (map (\<lambda>i. sum_list (map (\<lambda>e. e ! i) es) / real count) [0..<edim]))"

section \<open>Data model (background.js)\<close>

text \<open>
  A version \<open>{timestamp, hash, items, centroid, summary}\<close>. A centroid that is
  \<open>undefined\<close> is \<open>None\<close>; a summary that is absent is the empty string (the code
  reads it as \<open>summary || ''\<close>).
\<close>

record version =
  v_timestamp :: int
  v_hash :: nat
  v_items :: "item list"
  v_centroid :: "vec option"
  v_summary :: jsstring

text \<open>
  A stored document. \<open>d_id\<close> is the key of the record in the object store. Legacy
  records have no \<open>canonicalUrl\<close>, no \<open>versions\<close> array and no numeric
  \<open>latestVersionIndex\<close>: these are \<open>None\<close>.
\<close>

record doc =
  d_id :: nat
  canonicalUrl :: "jsstring option"
  url :: jsstring
  title :: jsstring
  timestamp :: int
  latestVersionIndex :: "int option"
  versions :: "version list option"
  items :: "item list"
  centroid :: "vec option"
  summary :: jsstring

text \<open>
  The capture message \<open>{url, title, timestamp, chunks, text}\<close>. A missing \<open>url\<close>,
  \<open>title\<close> or \<open>text\<close> is the empty string, a \<open>chunks\<close> that is not an array is
  the empty list (the code treats both alike).
\<close>

record message =
  m_url :: jsstring
  m_title :: jsstring
  m_timestamp :: int
  m_chunks :: "jsstring list"
  m_text :: jsstring

text \<open>An entry \<open>{url, message, delayMs}\<close> of \<open>PROCESS_QUEUE\<close>.\<close>

record qentry =
  q_url :: jsstring
  q_message :: message
  delayMs :: int

datatype procStatus = StProcessing | StRetrying | StError

text \<open>A processing entry \<open>{url, title, timestamp, status, attempts}\<close>.\<close>

record procEntry =
  p_url :: jsstring
  p_title :: jsstring
  p_timestamp :: int
  status :: procStatus
  attempts :: nat

text \<open>
  A row \<open>{level, message, meta, ts}\<close> of the log that \<open>logger.js\<close> keeps under the
  key \<open>logs\<close> of \<open>chrome.storage.local\<close>. Of \<open>meta\<close> the fields \<open>url\<close> and
  \<open>attempts\<close> are kept; the time stamp is left out.
\<close>

datatype logLevel = LDebug | LInfo | LWarn | LError

record logRow =
  l_level :: logLevel
  l_message :: jsstring
  l_url :: jsstring
  l_attempts :: "nat option"

text \<open>
  The mutable state of the service worker: the globals of the capture queue, the object
  store \<open>pages\<close> (in key order) with its key generator, and the values kept in
  \<open>chrome.storage.local\<close> (\<open>processingPages\<close>, \<open>pendingCaptures\<close>,
  \<open>embeddingMeta\<close>, \<open>logs\<close>). \<open>embedRequests\<close> records every request sent to
  the embedding endpoint and \<open>timers\<close> every pending \<open>setTimeout\<close> of the retry
  logic, as \<open>(delay in ms, message)\<close>. \<open>loggerLevel\<close> is \<open>LOGGER.level\<close>.
\<close>

record world =
  PROCESS_QUEUE :: "qentry list"
  PROCESSING :: bool
  ENQUEUED_URLS :: "jsstring set"
  CURRENT_URL :: "jsstring option"
  pagesStore :: "doc list"
  nextId :: nat
  processingPages :: "procEntry list"
  pendingCaptures :: "jsstring \<rightharpoonup> message"
  embeddingMeta :: "(jsstring option \<times> nat) option"
  embedRequests :: "jsstring list list"
  timers :: "(int \<times> message) list"
  loggerLevel :: logLevel
  logs :: "logRow list"

section \<open>Logger (logger.js)\<close>

text \<open>\<open>LEVELS\<close> and \<open>shouldLog(lvl)\<close>.\<close>

definition LEVELS :: "logLevel \<Rightarrow> nat" where
  "LEVELS lvl = (case lvl of LDebug \<Rightarrow> 10 | LInfo \<Rightarrow> 20 | LWarn \<Rightarrow> 30 | LError \<Rightarrow> 40)"

definition shouldLog :: "logLevel \<Rightarrow> world \<Rightarrow> bool" where
  "shouldLog lvl w \<longleftrightarrow> LEVELS lvl \<ge> LEVELS (loggerLevel w)"

definition MAX_LOGS :: nat where
  "MAX_LOGS = 2000"

text \<open>
  \<open>appendLogRow(row)\<close>: the row is pushed and the oldest rows beyond \<open>MAX_LOGS\<close> are
  spliced off the front.
\<close>

definition appendLogRow :: "logRow \<Rightarrow> world \<Rightarrow> world" where
  "appendLogRow row w =
     (let arr = logs w @ [row] in
      w\<lparr>logs := (if length arr > MAX_LOGS then drop (length arr - MAX_LOGS) arr else arr)\<rparr>)"

text \<open>
  \<open>LOGGER.log(lvl, message, meta)\<close>, as far as the stored log goes. The rows that the
  failure branch of \<open>processAndStore\<close> writes are modelled; the other calls of the
  logger in the functions below are left out.
\<close>

definition LOGGER_log :: "logLevel \<Rightarrow> jsstring \<Rightarrow> jsstring \<Rightarrow> nat option \<Rightarrow> world \<Rightarrow> world" where
  "LOGGER_log lvl msg u att w =
     (if shouldLog lvl w
      then appendLogRow \<lparr>l_level = lvl, l_message = msg, l_url = u, l_attempts = att\<rparr> w
      else w)"

section \<open>Capture queue (background.js)\<close>

text \<open>
  The loop of \<open>enqueueProcess\<close> over the queue: the first entry with the same URL gets
  the new payload and the larger delay; \<open>None\<close> when no entry has that URL.
\<close>

fun updateQueued :: "jsstring \<Rightarrow> message \<Rightarrow> int \<Rightarrow> qentry list \<Rightarrow> qentry list option" where
  "updateQueued u m d [] = None"
| "updateQueued u m d (it # its) =
     (if q_url it = u then Some (it\<lparr>q_message := m, delayMs := max (delayMs it) d\<rparr> # its)
      else map_option ((#) it) (updateQueued u m d its))"

text \<open>
  \<open>runProcessQueue\<close> is an async function: a call runs synchronously up to its first
  \<open>await\<close>. When no worker is running and the queue is not empty, this takes the head
  of the queue, removes its URL from \<open>ENQUEUED_URLS\<close> and makes it \<open>CURRENT_URL\<close>; the
  worker then waits for the delay and for \<open>processAndStore\<close>.
\<close>

definition runProcessQueue_start :: "world \<Rightarrow> world" where
  "runProcessQueue_start w =
     (if PROCESSING w then w
      else case PROCESS_QUEUE w of
             [] \<Rightarrow> w
           | it # rest \<Rightarrow>
               w\<lparr>PROCESSING := True, PROCESS_QUEUE := rest,
                 ENQUEUED_URLS := ENQUEUED_URLS w - {q_url it},
                 CURRENT_URL := Some (q_url it)\<rparr>)"

text \<open>
  The worker after \<open>processAndStore\<close> has settled: \<open>CURRENT_URL = null\<close>, then the
  next round of the \<open>while\<close> loop, or \<open>PROCESSING = false\<close> when the queue is empty.
\<close>

definition runProcessQueue_resume :: "world \<Rightarrow> world" where
  "runProcessQueue_resume w =
     (case PROCESS_QUEUE w of
        [] \<Rightarrow> w\<lparr>CURRENT_URL := None, PROCESSING := False\<rparr>
      | it # rest \<Rightarrow>
          w\<lparr>PROCESS_QUEUE := rest,
            ENQUEUED_URLS := ENQUEUED_URLS w - {q_url it},
            CURRENT_URL := Some (q_url it)\<rparr>)"

text \<open>\<open>enqueueProcess(message, delayMs)\<close>.\<close>

definition enqueueProcess :: "message \<Rightarrow> int \<Rightarrow> world \<Rightarrow> world" where
  "enqueueProcess m d w =
     (let u = m_url m in
      if u = [] then w
      else case updateQueued u m d (PROCESS_QUEUE w) of
             Some q \<Rightarrow> w\<lparr>PROCESS_QUEUE := q\<rparr>
           | None \<Rightarrow>
               if CURRENT_URL w = Some u then w
               else runProcessQueue_start
                      (w\<lparr>PROCESS_QUEUE := PROCESS_QUEUE w @ [\<lparr>q_url = u, q_message = m, delayMs = d\<rparr>],
                         ENQUEUED_URLS := insert u (ENQUEUED_URLS w)\<rparr>))"

section \<open>Lexical helpers (offscreen.js, background.js)\<close>

text \<open>
  \<open>toLowerCase\<close> on the ASCII letters; other code units are left as they are (the
  model does not cover cased letters outside ASCII).
\<close>

definition lowerUnit :: "16 word \<Rightarrow> 16 word" where
  "lowerUnit c = (if 0x0041 \<le> c \<and> c \<le> 0x005A then c + 0x0020 else c)"

definition toLowerCase :: "jsstring \<Rightarrow> jsstring" where
  "toLowerCase s = map lowerUnit s"

text \<open>The class \<open>\w\<close> of a regular expression: \<open>[A-Za-z0-9_]\<close>.\<close>

definition isWordChar :: "16 word \<Rightarrow> bool" where
  "isWordChar c \<longleftrightarrow>
     (0x0041 \<le> c \<and> c \<le> 0x005A) \<or> (0x0061 \<le> c \<and> c \<le> 0x007A) \<or>
     (0x0030 \<le> c \<and> c \<le> 0x0039) \<or> c = 0x005F"

text \<open>
  \<open>s.split(/\W+/)\<close>: the pieces between maximal runs of non-word characters; a run at
  the start or at the end leaves an empty piece there. The first argument is the piece
  being read, reversed.
\<close>

function splitNonWordAcc :: "jsstring \<Rightarrow> jsstring \<Rightarrow> jsstring list" where
  "splitNonWordAcc cur [] = [rev cur]"
| "splitNonWordAcc cur (c # cs) =
     (if isWordChar c then splitNonWordAcc (c # cur) cs
      else rev cur # splitNonWordAcc [] (dropWhile (\<lambda>x. \<not> isWordChar x) cs))"
  by pat_completeness auto
termination
  by (relation "measure (\<lambda>(cur, s). length s)") (auto simp: length_dropWhile_le less_Suc_eq_le)

definition splitNonWord :: "jsstring \<Rightarrow> jsstring list" where
  "splitNonWord s = splitNonWordAcc [] s"

text \<open>\<open>s.includes(t)\<close>: \<open>t\<close> occurs in \<open>s\<close> as a contiguous substring.\<close>

fun startsWith :: "jsstring \<Rightarrow> jsstring \<Rightarrow> bool" where
  "startsWith s [] = True"
| "startsWith [] (t # ts) = False"
| "startsWith (c # cs) (t # ts) = (c = t \<and> startsWith cs ts)"

fun includesStr :: "jsstring \<Rightarrow> jsstring \<Rightarrow> bool" where
  "includesStr [] t = (t = [])"
| "includesStr (c # cs) t = (startsWith (c # cs) t \<or> includesStr cs t)"

text \<open>
  \<open>Array.prototype.sort\<close> with a comparator is a stable sort; \<open>le a b\<close> stands for
  \<open>compare(a, b) <= 0\<close>.
\<close>

fun insertBy :: "('a \<Rightarrow> 'a \<Rightarrow> bool) \<Rightarrow> 'a \<Rightarrow> 'a list \<Rightarrow> 'a list" where
  "insertBy le x [] = [x]"
| "insertBy le x (y # ys) = (if le x y then x # y # ys else y # insertBy le x ys)"

definition sortBy :: "('a \<Rightarrow> 'a \<Rightarrow> bool) \<Rightarrow> 'a list \<Rightarrow> 'a list" where
  "sortBy le xs = foldr (insertBy le) xs []"

section \<open>Stage-2 chunk scoring (offscreen.js)\<close>




text \<open>
  The loop over the query variations: \<open>maxSim\<close> starts at \<open>-Infinity\<close> (\<open>None\<close>) and
  takes each similarity that is greater.
\<close>

definition maxSimStep :: "vec option \<Rightarrow> real option \<Rightarrow> vec \<Rightarrow> real option" where
  "maxSimStep emb maxSim ve =
     (let sim = cosineSimilarity (Some ve) emb in
      case maxSim of
        None \<Rightarrow> Some sim
      | Some x \<Rightarrow> if sim > x then Some sim else Some x)"

definition maxCosine :: "vec option \<Rightarrow> vec list \<Rightarrow> real option" where
  "maxCosine emb variationEmbeddings = foldl (maxSimStep emb) None variationEmbeddings"













section \<open>Embedding and summary helpers (background.js)\<close>

text \<open>
  What the service worker asks of its surroundings while it captures a page: the
  embedding endpoint (\<open>None\<close> when the request fails, is not \<open>ok\<close> or carries no
  \<open>embeddings\<close> array), the summary of a text by the chat model (empty on any failure or
  when no summary model is set), \<open>canonicalizeUrl\<close> (URL parsing is not modelled), whether
  a read-write transaction on the object store completes, and the settings read from
  \<open>chrome.storage.local\<close>.
\<close>

record capEnv =
  canonicalizeUrl :: "jsstring \<Rightarrow> jsstring"
  embedApi :: "jsstring list \<Rightarrow> vec list option"
  embedModel :: jsstring
  chatSummary :: "jsstring \<Rightarrow> jsstring"
  txOk :: bool
  versioningMaxVersions :: int
  versioningSimilarityThreshold :: real

text \<open>\<open>ensureEmbeddingMeta(model, dim)\<close>: written once, when nothing is stored yet.\<close>

definition ensureEmbeddingMeta :: "jsstring option \<Rightarrow> nat \<Rightarrow> world \<Rightarrow> world" where
  "ensureEmbeddingMeta model edim w =
     (if edim \<le> 0 then w
      else case embeddingMeta w of
             None \<Rightarrow> w\<lparr>embeddingMeta := Some (model, edim)\<rparr>
           | Some cur \<Rightarrow> w)"

text \<open>\<open>model || null\<close>.\<close>

definition orNull :: "jsstring \<Rightarrow> jsstring option" where
  "orNull s = (if s = [] then None else Some s)"

text \<open>The model that is asked for and recorded: \<open>embedModel || 'embeddinggemma'\<close>.\<close>

definition useModel :: "capEnv \<Rightarrow> jsstring" where
  "useModel env = (if embedModel env \<noteq> [] then embedModel env else js ''embeddinggemma'')"

text \<open>\<open>computeEmbedding(text)\<close>; \<open>None\<close> when it throws.\<close>

definition computeEmbedding :: "capEnv \<Rightarrow> jsstring \<Rightarrow> world \<Rightarrow> vec option \<times> world" where
  "computeEmbedding env t w =
     (let w1 = w\<lparr>embedRequests := embedRequests w @ [[t]]\<rparr> in
      case embedApi env [t] of
        Some (v # vs) \<Rightarrow> (Some v, ensureEmbeddingMeta (orNull (useModel env)) (length v) w1)
      | _ \<Rightarrow> (None, w1))"

text \<open>The fallback loop of \<open>computeEmbeddingsBatch\<close>: a text whose request fails is left out.\<close>

fun embedEach :: "capEnv \<Rightarrow> jsstring list \<Rightarrow> world \<Rightarrow> vec list \<times> world" where
  "embedEach env [] w = ([], w)"
| "embedEach env (t # ts) w =
     (case computeEmbedding env t w of
        (Some v, w1) \<Rightarrow> (case embedEach env ts w1 of (vs, w2) \<Rightarrow> (v # vs, w2))
      | (None, w1) \<Rightarrow> embedEach env ts w1)"

text \<open>\<open>computeEmbeddingsBatch(texts)\<close>; it never throws.\<close>

definition computeEmbeddingsBatch :: "capEnv \<Rightarrow> jsstring list \<Rightarrow> world \<Rightarrow> vec list \<times> world" where
  "computeEmbeddingsBatch env texts w =
     (if texts = [] then ([], w)
      else
        let w1 = w\<lparr>embedRequests := embedRequests w @ [texts]\<rparr> in
        case embedApi env texts of
          Some embs \<Rightarrow>
            if length embs = length texts
            then (embs, ensureEmbeddingMeta (orNull (useModel env)) (length (hd embs)) w1)
            else embedEach env texts w1
        | None \<Rightarrow> embedEach env texts w1)"

text \<open>\<open>computeSummary(text)\<close>; it never throws and returns the empty string on failure.\<close>

definition computeSummary :: "capEnv \<Rightarrow> jsstring \<Rightarrow> jsstring" where
  "computeSummary env t = (if t = [] \<or> trim t = [] then [] else trim (chatSummary env t))"

section \<open>Stored state helpers (background.js)\<close>

definition addProcessingPage :: "procEntry \<Rightarrow> world \<Rightarrow> world" where
  "addProcessingPage meta w =
     (let l = processingPages w;
          l1 = (if list_ex (\<lambda>p. p_url p = p_url meta) l then l else meta # l)
      in w\<lparr>processingPages := take 100 l1\<rparr>)"

definition removeProcessingPage :: "jsstring \<Rightarrow> world \<Rightarrow> world" where
  "removeProcessingPage u w = w\<lparr>processingPages := filter (\<lambda>p. p_url p \<noteq> u) (processingPages w)\<rparr>"

text \<open>
  \<open>updateProcessingPage(url, fields)\<close>; \<open>{...p, ...fields}\<close> is the function \<open>upd\<close>
  on the entry.
\<close>

definition updateProcessingPage :: "jsstring \<Rightarrow> (procEntry \<Rightarrow> procEntry) \<Rightarrow> world \<Rightarrow> world" where
  "updateProcessingPage u upd w =
     w\<lparr>processingPages := map (\<lambda>p. if p_url p = u then upd p else p) (processingPages w)\<rparr>"

definition savePendingCapture :: "jsstring \<Rightarrow> message \<Rightarrow> world \<Rightarrow> world" where
  "savePendingCapture u payload w = w\<lparr>pendingCaptures := (pendingCaptures w)(u \<mapsto> payload)\<rparr>"

definition removePendingCapture :: "jsstring \<Rightarrow> world \<Rightarrow> world" where
  "removePendingCapture u w = w\<lparr>pendingCaptures := (pendingCaptures w)(u := None)\<rparr>"

definition getPendingCapture :: "jsstring \<Rightarrow> world \<Rightarrow> message option" where
  "getPendingCapture u w = pendingCaptures w u"

text \<open>
  \<open>getByCanonicalUrl(canUrl)\<close>: the index on \<open>canonicalUrl\<close> first, then a scan that
  canonicalises the stored URLs.
\<close>

definition getByCanonicalUrl :: "capEnv \<Rightarrow> jsstring \<Rightarrow> world \<Rightarrow> doc option" where
  "getByCanonicalUrl env canUrl w =
     (case find (\<lambda>p. canonicalUrl p = Some canUrl) (pagesStore w) of
        Some p \<Rightarrow> Some p
      | None \<Rightarrow> find (\<lambda>p. canonicalizeUrl env (url p) = canUrl) (pagesStore w))"

text \<open>
  \<open>objectStore.add(rec)\<close> gives the record the next key; \<open>objectStore.put(doc)\<close> replaces
  the record with the key of \<open>doc\<close>.
\<close>

definition addDoc :: "doc \<Rightarrow> world \<Rightarrow> world" where
  "addDoc rec w = w\<lparr>pagesStore := pagesStore w @ [rec\<lparr>d_id := nextId w\<rparr>], nextId := nextId w + 1\<rparr>"

definition putDoc :: "doc \<Rightarrow> world \<Rightarrow> world" where
  "putDoc d w =
     (if list_ex (\<lambda>p. d_id p = d_id d) (pagesStore w)
      then w\<lparr>pagesStore := map (\<lambda>p. if d_id p = d_id d then d else p) (pagesStore w)\<rparr>
      else w\<lparr>pagesStore := pagesStore w @ [d]\<rparr>)"

text \<open>\<open>arr[i]\<close> for a numeric index: \<open>undefined\<close> (\<open>None\<close>) out of range.\<close>

definition elemAt :: "'a list \<Rightarrow> int \<Rightarrow> 'a option" where
  "elemAt xs i = (if 0 \<le> i \<and> i < int (length xs) then Some (xs ! nat i) else None)"

section \<open>Version merger (background.js)\<close>

text \<open>\<open>items.map(i => i.text || '').join(' ')\<close>.\<close>

fun joinSpace :: "jsstring list \<Rightarrow> jsstring" where
  "joinSpace [] = []"
| "joinSpace [s] = s"
| "joinSpace (s # t # ts) = s @ [0x0020] @ joinSpace (t # ts)"

text \<open>
  The chunks that are embedded: the non-blank chunks of the message, or else the
  normalised text as one chunk.
\<close>

definition chunksArr :: "message \<Rightarrow> jsstring list" where
  "chunksArr m =
     (if m_chunks m \<noteq> [] then filter (\<lambda>c. length (trim c) > 0) (m_chunks m)
      else (let normalizedText = normalizeText (m_text m) in
            if normalizedText \<noteq> [] then [normalizedText] else []))"

text \<open>
  A legacy document (no \<open>versions\<close> array or no numeric \<open>latestVersionIndex\<close>) gets one
  version made of its top-level fields; \<open>ts\<close> stands in for a missing timestamp.
\<close>

definition legacyVersions :: "int \<Rightarrow> doc \<Rightarrow> doc" where
  "legacyVersions ts d =
     (if versions d = None \<or> latestVersionIndex d = None then
        let prevItems = items d in
        d\<lparr>versions := Some [\<lparr>v_timestamp = (if timestamp d = 0 then ts else timestamp d),
                                v_hash = stringHash (joinSpace (map i_text prevItems)),
                                v_items = prevItems,
                                v_centroid = (case centroid d of
                                                Some c \<Rightarrow> Some c
                                              | None \<Rightarrow> computeCentroid prevItems),
                                v_summary = summary d\<rparr>],
          latestVersionIndex := Some 0\<rparr>
      else d)"

text \<open>
  \<open>doc.versions.push(v)\<close>, then the eviction: with
  \<open>maxN = Math.max(1, maxVersions || 3)\<close> the oldest \<open>length - maxN\<close> versions are
  dropped from the front.
\<close>

definition maxN :: "int \<Rightarrow> int" where
  "maxN maxVersions = max 1 (if maxVersions = 0 then 3 else maxVersions)"

definition pushAndEvict :: "int \<Rightarrow> version list \<Rightarrow> version \<Rightarrow> version list" where
  "pushAndEvict maxVersions vs v =
     (let vs1 = vs @ [v] in
      if int (length vs1) > maxN maxVersions
      then drop (nat (int (length vs1) - maxN maxVersions)) vs1
      else vs1)"

text \<open>
  The fast path of \<open>processAndStore\<close>: the document has versions and the hash of
  \<open>versions[latestVersionIndex] || versions[versions.length - 1]\<close> is the content hash.
  The result is the document that is written, \<open>None\<close> when the fast path does not apply.
\<close>

definition fastPath :: "message \<Rightarrow> nat \<Rightarrow> doc option \<Rightarrow> doc option" where
  "fastPath m contentHash found =
     (case found of
        None \<Rightarrow> None
      | Some d \<Rightarrow>
          (case (versions d, latestVersionIndex d) of
             (Some vs, Some idx) \<Rightarrow>
               (let pos = (if elemAt vs idx \<noteq> None then Some (nat idx)
                           else if vs \<noteq> [] then Some (length vs - 1) else None)
                in case pos of
                     None \<Rightarrow> None
                   | Some i \<Rightarrow>
                       if v_hash (vs ! i) = contentHash
                       then Some (d\<lparr>versions := Some (vs[i := (vs ! i)\<lparr>v_timestamp := m_timestamp m\<rparr>]),
                                    timestamp := m_timestamp m,
                                    title := (if m_title m \<noteq> [] then m_title m else title d),
                                    url := (if m_url m \<noteq> [] then m_url m else url d)\<rparr>)
                       else None)
           | _ \<Rightarrow> None))"

text \<open>
  The decision of \<open>processAndStore\<close> between overwriting the latest version and
  appending, followed by the synchronisation of the top-level fields. \<open>None\<close> is the
  \<open>TypeError\<close> of \<open>latest.centroid\<close> when \<open>versions[latestVersionIndex]\<close> is undefined.
\<close>

definition mergeNewVersion :: "capEnv \<Rightarrow> jsstring \<Rightarrow> message \<Rightarrow> version \<Rightarrow> doc \<Rightarrow> doc option" where
  "mergeNewVersion env canUrl m newVersion d0 =
     (let d = legacyVersions (m_timestamp m) d0;
          vs = (case versions d of Some vs \<Rightarrow> vs | None \<Rightarrow> []);
          idx = (case latestVersionIndex d of Some i \<Rightarrow> i | None \<Rightarrow> 0)
      in case elemAt vs idx of
           None \<Rightarrow> None
         | Some latest \<Rightarrow>
             let latestCentroid = (case v_centroid latest of
                                     Some c \<Rightarrow> c
                                   | None \<Rightarrow> (case computeCentroid (v_items latest) of
                                                 Some c \<Rightarrow> c | None \<Rightarrow> []));
                 newCentroid = (case v_centroid newVersion of Some c \<Rightarrow> c | None \<Rightarrow> []);
                 similar = (length latestCentroid \<noteq> 0 \<and> length newCentroid \<noteq> 0 \<and>
                            cosineSimilarity (Some newCentroid) (Some latestCentroid)
                              \<ge> versioningSimilarityThreshold env);
                 vs1 = (if similar then vs[nat idx := newVersion]
                        else pushAndEvict (versioningMaxVersions env) vs newVersion);
                 idx1 = (if similar then idx else int (length vs1) - 1)
             in Some (d\<lparr>versions := Some vs1, latestVersionIndex := Some idx1,
                        canonicalUrl := Some canUrl, url := m_url m, title := m_title m,
                        timestamp := m_timestamp m, items := v_items newVersion,
                        centroid := v_centroid newVersion, summary := v_summary newVersion\<rparr>))"

text \<open>
  The \<open>try\<close> block of \<open>processAndStore\<close>. \<open>Inr\<close> is the state after a successful
  capture, \<open>Inl\<close> the state at the point where an exception was thrown.
\<close>

definition processBody :: "capEnv \<Rightarrow> message \<Rightarrow> world \<Rightarrow> world + world" where
  "processBody env m w =
     (let u = m_url m;
          normalizedText = normalizeText (m_text m);
          contentHash = stringHash normalizedText;
          canUrl = canonicalizeUrl env u;
          w1 = addProcessingPage \<lparr>p_url = u, p_title = m_title m, p_timestamp = m_timestamp m,
                                   status = StProcessing, attempts = 0\<rparr> w;
          found = getByCanonicalUrl env canUrl w1
      in case fastPath m contentHash found of
           Some d \<Rightarrow>
             if txOk env
             then Inr (removeProcessingPage u (removePendingCapture u (putDoc d w1)))
             else Inl w1
         | None \<Rightarrow>
             (case computeEmbeddingsBatch env (chunksArr m) w1 of
                (embeddings, w2) \<Rightarrow>
                  let its = map (\<lambda>(c, e). \<lparr>i_text = c, embedding = Some e\<rparr>)
                                (zip (chunksArr m) embeddings);
                      newVersion = \<lparr>v_timestamp = m_timestamp m, v_hash = contentHash,
                                     v_items = its, v_centroid = computeCentroid its,
                                     v_summary = (if m_text m \<noteq> []
                                                  then computeSummary env (m_text m) else [])\<rparr>
                  in case found of
                       None \<Rightarrow>
                         if txOk env
                         then Inr (removeProcessingPage u (removePendingCapture u
                                (addDoc \<lparr>d_id = 0, canonicalUrl = Some canUrl, url = u,
                                         title = m_title m, timestamp = m_timestamp m,
                                         latestVersionIndex = Some 0,
                                         versions = Some [newVersion], items = its,
                                         centroid = v_centroid newVersion,
                                         summary = v_summary newVersion\<rparr> w2)))
                         else Inl w2
                     | Some d0 \<Rightarrow>
                         (case mergeNewVersion env canUrl m newVersion d0 of
                            None \<Rightarrow> Inl w2
                          | Some d \<Rightarrow>
                              if txOk env
                              then Inr (removeProcessingPage u (removePendingCapture u (putDoc d w2)))
                              else Inl w2)))"

text \<open>
  The \<open>catch\<close> block of \<open>processAndStore\<close>: the failure is logged; the attempt
  counter of the entry goes up by one; up to 3 attempts the retry is logged and a timer
  re-enqueues the message after \<open>1000 * Math.pow(2, attempts - 1)\<close> ms; after that
  \<open>'giving up after retries'\<close> is logged as an error and the processing entry and the
  pending payload are removed.
\<close>

definition handleFailure :: "message \<Rightarrow> world \<Rightarrow> world" where
  "handleFailure m w =
     (let u = m_url m;
          w0 = LOGGER_log LError (js ''processAndStore failed'') u None w;
          n = (case find (\<lambda>p. p_url p = u) (processingPages w0) of
                 Some entry \<Rightarrow> attempts entry
               | None \<Rightarrow> 0) + 1;
          w1 = updateProcessingPage u (\<lambda>p. p\<lparr>status := StError, attempts := n\<rparr>) w0
      in if n \<le> 3
         then (let w2 = LOGGER_log LInfo (js ''scheduling retry'') u (Some n) w1
               in w2\<lparr>timers := timers w2 @ [(1000 * 2 ^ (n - 1), m)]\<rparr>)
         else removePendingCapture u (removeProcessingPage u
                (LOGGER_log LError (js ''giving up after retries'') u (Some n) w1)))"

text \<open>The attempt count that the \<open>catch\<close> block reads for a URL.\<close>

definition attemptsBefore :: "jsstring \<Rightarrow> world \<Rightarrow> nat" where
  "attemptsBefore u w =
     (case find (\<lambda>p. p_url p = u) (processingPages w) of Some e \<Rightarrow> attempts e | None \<Rightarrow> 0)"

datatype error = InvalidMessage | MissingUrl

text \<open>
  \<open>processAndStore(message)\<close>. The two checks before the \<open>try\<close> block throw to the
  caller; every later failure ends in the \<open>catch\<close> block.
\<close>

definition processAndStore :: "capEnv \<Rightarrow> message \<Rightarrow> world \<Rightarrow> error + world" where
  "processAndStore env m w =
     (if m_url m = [] then Inl MissingUrl
      else case processBody env m w of
             Inr w1 \<Rightarrow> Inr w1
           | Inl w1 \<Rightarrow> Inr (handleFailure m w1))"


datatype response = ResponseOk | ResponseError

text \<open>The handler of \<open>RETRY_PROCESSING\<close>, the manual retry of a URL.\<close>

definition retryProcessing :: "jsstring \<Rightarrow> world \<Rightarrow> response \<times> world" where
  "retryProcessing u w =
     (case getPendingCapture u w of
        None \<Rightarrow> (ResponseError, w)
      | Some payload \<Rightarrow>
          (ResponseOk,
           enqueueProcess payload 0
             (updateProcessingPage u (\<lambda>p. p\<lparr>status := StRetrying, attempts := 0\<rparr>)
                (removeProcessingPage u w))))"

text \<open>The handler of \<open>SAVE_PAGE\<close> when capture is not paused.\<close>

definition savePage :: "message \<Rightarrow> world \<Rightarrow> world" where
  "savePage m w = enqueueProcess m 0 (savePendingCapture (m_url m) m w)"

text \<open>
  \<open>upsertVersion(canUrl, url, title, version, maxVersions, similarityThreshold)\<close>, used
  by the import. \<open>None\<close> when the write transaction fails.
\<close>

definition upsertMerge :: "capEnv \<Rightarrow> jsstring \<Rightarrow> jsstring \<Rightarrow> jsstring \<Rightarrow> version \<Rightarrow> doc \<Rightarrow> doc" where
  "upsertMerge env canUrl u ttl ver d0 =
     (let d = legacyVersions (v_timestamp ver) d0;
          vs = (case versions d of Some vs \<Rightarrow> vs | None \<Rightarrow> []);
          idx = (case latestVersionIndex d of Some i \<Rightarrow> i | None \<Rightarrow> 0);
          latest = elemAt vs idx;
          sameHash = (case latest of Some l \<Rightarrow> v_hash l = v_hash ver | None \<Rightarrow> False);
          latestCentroid = (case latest of
                              None \<Rightarrow> None
                            | Some l \<Rightarrow> (case v_centroid l of
                                           Some c \<Rightarrow> Some c
                                         | None \<Rightarrow> computeCentroid (v_items l)));
          similar = (case (latestCentroid, v_centroid ver) of
                       (Some lc, Some c) \<Rightarrow>
                         cosineSimilarity (Some c) (Some lc) \<ge> versioningSimilarityThreshold env
                     | _ \<Rightarrow> False);
          vs1 = (if sameHash
                 then vs[nat idx := (vs ! nat idx)\<lparr>v_timestamp := max (v_timestamp (vs ! nat idx)) (v_timestamp ver)\<rparr>]
                 else if similar then vs[nat idx := ver]
                 else pushAndEvict (versioningMaxVersions env) vs ver);
          idx1 = (if sameHash \<or> similar then idx else int (length vs1) - 1);
          cur = vs1 ! nat idx1
      in d\<lparr>versions := Some vs1, latestVersionIndex := Some idx1,
           canonicalUrl := Some canUrl, url := u, title := ttl,
           timestamp := v_timestamp cur, items := v_items cur,
           centroid := v_centroid cur, summary := v_summary cur\<rparr>)"

definition upsertVersion :: "capEnv \<Rightarrow> jsstring \<Rightarrow> jsstring \<Rightarrow> jsstring \<Rightarrow> version \<Rightarrow> world \<Rightarrow> world option" where
  "upsertVersion env canUrl u ttl ver w =
     (case getByCanonicalUrl env canUrl w of
        None \<Rightarrow>
          if txOk env
          then Some (addDoc \<lparr>d_id = 0, canonicalUrl = Some canUrl, url = u, title = ttl,
                              timestamp = v_timestamp ver, latestVersionIndex = Some 0,
                              versions = Some [ver], items = v_items ver,
                              centroid = v_centroid ver, summary = v_summary ver\<rparr> w)
          else None
      | Some d0 \<Rightarrow>
          if txOk env then Some (putDoc (upsertMerge env canUrl u ttl ver d0) w) else None)"

section \<open>Document invariant (background.js)\<close>

text \<open>A document that carries a versions array and a numeric index of its latest version.\<close>

definition versioned :: "doc \<Rightarrow> bool" where
  "versioned d \<longleftrightarrow> versions d \<noteq> None \<and> latestVersionIndex d \<noteq> None"

text \<open>
  The parts of the invariant of a versioned document: the index of the latest version is in
  range and the top-level items, centroid and summary are those of that version
  (\<open>latestInv\<close>); there are at most \<open>Math.max(1, maxVersions || 3)\<close> versions
  (\<open>countInv\<close>).
\<close>

definition latestInv :: "doc \<Rightarrow> bool" where
  "latestInv d \<longleftrightarrow>
     (case (versions d, latestVersionIndex d) of
        (Some vs, Some idx) \<Rightarrow>
          0 \<le> idx \<and> idx < int (length vs) \<and>
          items d = v_items (vs ! nat idx) \<and> centroid d = v_centroid (vs ! nat idx) \<and>
          summary d = v_summary (vs ! nat idx)
      | _ \<Rightarrow> False)"

definition countInv :: "int \<Rightarrow> doc \<Rightarrow> bool" where
  "countInv maxVersions d \<longleftrightarrow>
     (case versions d of Some vs \<Rightarrow> int (length vs) \<le> maxN maxVersions | None \<Rightarrow> False)"

definition docInv :: "int \<Rightarrow> doc \<Rightarrow> bool" where
  "docInv maxVersions d \<longleftrightarrow> countInv maxVersions d \<and> latestInv d"

text \<open>
  The locals \<open>contentHash\<close> and \<open>doc\<close> of \<open>processAndStore\<close>: the hash of the
  normalised text and the stored document found for the canonical URL.
\<close>

definition contentHashOf :: "message \<Rightarrow> nat" where
  "contentHashOf m = stringHash (normalizeText (m_text m))"

definition foundDoc :: "capEnv \<Rightarrow> message \<Rightarrow> world \<Rightarrow> doc option" where
  "foundDoc env m w = getByCanonicalUrl env (canonicalizeUrl env (m_url m)) w"

section \<open>RAG orchestration (background.js, askQuestion)\<close>

text \<open>A hit of \<open>searchMemory\<close>; a score that is missing is 0, which the code reads alike.\<close>

record hit =
  h_url :: jsstring
  h_title :: jsstring
  h_snippet :: jsstring
  h_chunkIndex :: "nat option"
  h_score :: real
  h_weightedScore :: real
  h_crossScore :: "real option"

record toolCall =
  tc_name :: jsstring
  tc_arguments :: jsstring

datatype role = RoleSystem | RoleUser | RoleAssistant | RoleTool

record chatMsg =
  role :: role
  content :: jsstring
  tool_calls :: "toolCall list"
  toolName :: jsstring

text \<open>The \<open>message\<close> of a chat response: its content and the tool calls it asks for.\<close>

record reply =
  r_content :: jsstring
  r_tool_calls :: "toolCall list"

text \<open>A request to \<open>/api/chat\<close> throws, is answered with a status that is not ok, or is answered.\<close>

datatype chatResult = ChatThrows | ChatNotOk | ChatOk reply

datatype askResult = PlainText jsstring | Answer jsstring "jsstring list"

text \<open>The provider and tool calls that an orchestration run makes, in order.\<close>

datatype stage =
  StageDecompose | StageSearch jsstring | StageExtract | StageTool toolCall
  | StageExtractTools | StageCompose

text \<open>
  What \<open>askQuestion\<close> reads and calls: the settings, the online check (\<open>None\<close> when it
  throws), the decomposition of the question and the retrieval per sub-query (\<open>None\<close>
  when they throw), the chat endpoint as a function of the messages sent, and the tool
  runtime with its own state \<open>'rt\<close>. Prompt texts and the layout of the final answer are
  string formatting; they are taken as functions.
\<close>

record 'rt askEnv =
  chatModel :: jsstring
  answerDetailed :: bool
  askTopConcise :: int
  askTopDetailed :: int
  enableTools :: bool
  maxToolSteps :: int
  checkModelsOnline :: "bool option"
  decomposeQuestion :: "jsstring \<Rightarrow> jsstring list option"
  searchMemory :: "jsstring \<Rightarrow> hit list option"
  chat :: "chatMsg list \<Rightarrow> chatResult"
  newRuntime :: 'rt
  runToolCall :: "'rt \<Rightarrow> toolCall \<Rightarrow> jsstring \<times> 'rt"
  usedUrlOrder :: "'rt \<Rightarrow> jsstring list"
  extractMessages :: "jsstring \<Rightarrow> hit list \<Rightarrow> chatMsg list"
  composeMessages :: "jsstring \<Rightarrow> hit list \<Rightarrow> jsstring \<Rightarrow> chatMsg list"
  composeAnswer :: "jsstring \<Rightarrow> hit list \<Rightarrow> jsstring list \<Rightarrow> askResult"
  fallbackAnswer :: "hit list \<Rightarrow> askResult"
  offlineAnswer :: askResult

text \<open>\<open>hit.crossScore || hit.weightedScore || hit.score\<close>, the score compared on a duplicate key.\<close>

definition dedupScore :: "hit \<Rightarrow> real" where
  "dedupScore h =
     (case h_crossScore h of
        Some c \<Rightarrow> if c \<noteq> 0 then c
                  else if h_weightedScore h \<noteq> 0 then h_weightedScore h else h_score h
      | None \<Rightarrow> if h_weightedScore h \<noteq> 0 then h_weightedScore h else h_score h)"

text \<open>\<open>a.crossScore !== undefined ? a.crossScore : (a.weightedScore || a.score)\<close>, the sort score.\<close>

definition sortScore :: "hit \<Rightarrow> real" where
  "sortScore h =
     (case h_crossScore h of
        Some c \<Rightarrow> c
      | None \<Rightarrow> if h_weightedScore h \<noteq> 0 then h_weightedScore h else h_score h)"

text \<open>The key \<open>`${hit.url}::${hit.snippet}`\<close> of the map of hits.\<close>

definition hitKey :: "hit \<Rightarrow> jsstring" where
  "hitKey h = h_url h @ [0x003A, 0x003A] @ h_snippet h"

text \<open>
  The map of hits keeps its keys in the order of their first insertion; a later hit with
  the same key takes the place of the earlier one only when its score is higher.
\<close>

fun addHit :: "(jsstring \<times> hit) list \<Rightarrow> hit \<Rightarrow> (jsstring \<times> hit) list" where
  "addHit [] h = [(hitKey h, h)]"
| "addHit ((k, e) # hm) h =
     (if k = hitKey h then (if dedupScore h > dedupScore e then (k, h) # hm else (k, e) # hm)
      else (k, e) # addHit hm h)"

definition searchInto :: "'rt askEnv \<Rightarrow> (jsstring \<times> hit) list \<Rightarrow> jsstring \<Rightarrow> (jsstring \<times> hit) list" where
  "searchInto env hm sub =
     (case searchMemory env sub of
        None \<Rightarrow> hm
      | Some hits \<Rightarrow> foldl addHit hm hits)"

definition subQueriesOf :: "'rt askEnv \<Rightarrow> jsstring \<Rightarrow> jsstring list" where
  "subQueriesOf env question =
     (case decomposeQuestion env question of Some qs \<Rightarrow> qs | None \<Rightarrow> [question])"

text \<open>\<open>hitsArray\<close>: the deduplicated hits of all sub-queries.\<close>

definition collectHits :: "'rt askEnv \<Rightarrow> jsstring \<Rightarrow> hit list" where
  "collectHits env question = map snd (foldl (searchInto env) [] (subQueriesOf env question))"

definition stopwords :: "jsstring list" where
  "stopwords = map js [''what'', ''did'', ''how'', ''the'', ''a'', ''an'', ''in'', ''on'', ''to'',
     ''is'', ''are'', ''was'', ''were'', ''and'', ''or'', ''of'', ''about'', ''say'', ''who'', ''why'',
     ''when'', ''where'']"

definition askTokens :: "jsstring \<Rightarrow> jsstring list" where
  "askTokens question =
     filter (\<lambda>t. t \<noteq> [] \<and> t \<notin> set stopwords) (splitNonWord (toLowerCase question))"

definition containsToken :: "jsstring list \<Rightarrow> hit \<Rightarrow> bool" where
  "containsToken toks h = list_ex (\<lambda>tok. includesStr (toLowerCase (h_snippet h)) tok) toks"

text \<open>
  The hits sorted by score, then (when the question has tokens) the hits that contain a
  token first, and cut to the configured number.
\<close>

definition topHitsOf :: "'rt askEnv \<Rightarrow> jsstring \<Rightarrow> hit list \<Rightarrow> hit list" where
  "topHitsOf env question hitsArray =
     (let sorted = sortBy (\<lambda>a b. sortScore b \<le> sortScore a) hitsArray;
          toks = askTokens question;
          filteredHits =
            (if toks \<noteq> []
             then sortBy (\<lambda>a b. if containsToken toks b \<noteq> containsToken toks a
                                 then containsToken toks a
                                 else sortScore b \<le> sortScore a) sorted
             else sorted);
          n = (if answerDetailed env then max 1 (askTopDetailed env) else max 1 (askTopConcise env))
      in take (nat n) filteredHits)"

text \<open>\<open>stepCap = Math.max(0, Math.min((maxToolSteps || 2), 2))\<close>.\<close>

definition stepCap :: "'rt askEnv \<Rightarrow> int" where
  "stepCap env = max 0 (min (if maxToolSteps env = 0 then 2 else maxToolSteps env) 2)"

definition updatePrompt :: jsstring where
  "updatePrompt = js ''Update the bullet points based on the tool results. Keep the same format and citations.''"

definition assistantMsg :: "reply \<Rightarrow> chatMsg" where
  "assistantMsg j = \<lparr>role = RoleAssistant, content = r_content j, tool_calls = r_tool_calls j, toolName = []\<rparr>"

text \<open>The inner loop of a round: every requested tool call is run and answered by a tool message.\<close>

fun runTools ::
  "'rt askEnv \<Rightarrow> toolCall list \<Rightarrow> chatMsg list \<Rightarrow> 'rt \<Rightarrow> stage list \<Rightarrow> chatMsg list \<times> 'rt \<times> stage list" where
  "runTools env [] messages rt tr = (messages, rt, tr)"
| "runTools env (tc # tcs) messages rt tr =
     (case runToolCall env rt tc of
        (res, rt1) \<Rightarrow>
          runTools env tcs
            (messages @ [\<lparr>role = RoleTool, content = res, tool_calls = [], toolName = tc_name tc\<rparr>])
            rt1 (tr @ [StageTool tc]))"

text \<open>
  The tool loop \<open>while (steps < stepCap)\<close>. The result is the last response, the state of
  the tool runtime, the number of rounds, whether the loop was left by an exception, and
  the calls made.
\<close>

function toolLoop ::
  "'rt askEnv \<Rightarrow> int \<Rightarrow> nat \<Rightarrow> reply \<Rightarrow> chatMsg list \<Rightarrow> 'rt \<Rightarrow> stage list
     \<Rightarrow> reply \<times> 'rt \<times> nat \<times> bool \<times> stage list" where
  "toolLoop env cap steps json messages rt tr =
     (if int steps < cap then
        (case runTools env (r_tool_calls json) messages rt tr of
           (messages1, rt1, tr1) \<Rightarrow>
             let messages2 = messages1 @ [\<lparr>role = RoleUser, content = updatePrompt,
                                            tool_calls = [], toolName = []\<rparr>];
                 tr2 = tr1 @ [StageExtractTools]
             in case chat env messages2 of
                  ChatThrows \<Rightarrow> (json, rt1, steps + 1, True, tr2)
                | ChatNotOk \<Rightarrow> (json, rt1, steps + 1, False, tr2)
                | ChatOk j2 \<Rightarrow>
                    if r_tool_calls j2 \<noteq> []
                    then toolLoop env cap (steps + 1) j2 (messages2 @ [assistantMsg j2]) rt1 tr2
                    else (j2, rt1, steps + 1, False, tr2))
      else (json, rt, steps, False, tr))"
  by pat_completeness auto
termination
  by (relation "measure (\<lambda>(env, cap, steps, json, messages, rt, tr). nat (cap - int steps))") auto

text \<open>
  Pass 1: the extracted bullets, the URLs that the tools touched, and the calls made.
\<close>

definition extractPass :: "'rt askEnv \<Rightarrow> jsstring \<Rightarrow> hit list \<Rightarrow> jsstring \<times> jsstring list \<times> stage list" where
  "extractPass env question topHits =
     (let msgs = extractMessages env question topHits in
      case chat env msgs of
        ChatThrows \<Rightarrow> ([], [], [StageExtract])
      | ChatNotOk \<Rightarrow> ([], [], [StageExtract])
      | ChatOk json \<Rightarrow>
          if enableTools env \<and> r_tool_calls json \<noteq> []
          then (case toolLoop env (stepCap env) 0 json (msgs @ [assistantMsg json])
                       (newRuntime env) [StageExtract] of
                  (json1, rt1, steps, threw, tr) \<Rightarrow>
                    (trim (r_content json1), (if threw then [] else usedUrlOrder env rt1), tr))
          else (trim (r_content json), [], [StageExtract]))"

text \<open>Pass 2: the final content, empty when the request fails.\<close>

definition composePass :: "'rt askEnv \<Rightarrow> jsstring \<Rightarrow> hit list \<Rightarrow> jsstring \<Rightarrow> jsstring" where
  "composePass env question topHits extracted =
     (case chat env (composeMessages env question topHits extracted) of
        ChatOk j \<Rightarrow> trim (r_content j)
      | _ \<Rightarrow> [])"

definition noContext :: jsstring where
  "noContext = js ''No relevant context found.''"

text \<open>\<open>askQuestion(question)\<close>: the answer and the calls made.\<close>

definition askQuestion :: "'rt askEnv \<Rightarrow> jsstring \<Rightarrow> askResult \<times> stage list" where
  "askQuestion env question =
     (if checkModelsOnline env = Some False then (offlineAnswer env, [])
      else
        let tr0 = StageDecompose # map StageSearch (subQueriesOf env question);
            hitsArray = collectHits env question
        in if hitsArray = [] then (PlainText noContext, tr0)
           else
             let topHits = topHitsOf env question hitsArray in
             if chatModel env \<noteq> [] \<and> topHits \<noteq> []
             then (case extractPass env question topHits of
                     (extracted, usedToolUrls, tr1) \<Rightarrow>
                       (composeAnswer env (composePass env question topHits extracted) topHits usedToolUrls,
                        tr0 @ tr1 @ [StageCompose]))
             else (fallbackAnswer env topHits, tr0))"

text \<open>The number of rounds of the tool loop among the calls of a run.\<close>

definition toolRounds :: "stage list \<Rightarrow> nat" where
  "toolRounds tr = length (filter (\<lambda>s. s = StageExtractTools) tr)"

section \<open>Import (manager page and IMPORT_PAGES handler)\<close>

text \<open>
  A version and a page of an import file. The handler accepts several spellings of the
  same keys (\<open>history\<close> or \<open>snapshots\<close> for \<open>versions\<close>, \<open>chunks\<close> or \<open>passages\<close>
  for \<open>items\<close>, \<open>vector\<close> for \<open>embedding\<close>, and so on); the records hold the values
  after that choice. A timestamp, hash or centroid that is absent is \<open>None\<close>.
\<close>

record srcVersion =
  sv_timestamp :: "int option"
  sv_hash :: "nat option"
  sv_items :: "item list"
  sv_centroid :: "vec option"
  sv_summary :: jsstring

record srcPage =
  sp_url :: jsstring
  sp_title :: jsstring
  sp_canonicalUrl :: jsstring
  sp_versions :: "srcVersion list"
  sp_items :: "item list"
  sp_timestamp :: "int option"
  sp_summary :: jsstring













text \<open>
  The versions of a source page: its \<open>versions\<close>, or else one version made of its
  top-level items; sorted by timestamp (a missing one counts as 0).
\<close>

definition pageVersions :: "int \<Rightarrow> srcPage \<Rightarrow> srcVersion list" where
  "pageVersions now src =
     sort_key (\<lambda>v. case sv_timestamp v of Some t \<Rightarrow> t | None \<Rightarrow> 0)
       (if sp_versions src \<noteq> [] then sp_versions src
        else [\<lparr>sv_timestamp = Some (case sp_timestamp src of Some t \<Rightarrow> t | None \<Rightarrow> now),
               sv_hash = None, sv_items = sp_items src, sv_centroid = None,
               sv_summary = sp_summary src\<rparr>])"







section \<open>Example values\<close>

definition exMsg :: "string \<Rightarrow> string \<Rightarrow> int \<Rightarrow> message" where
  "exMsg u t ts = \<lparr>m_url = js u, m_title = js ''t'', m_timestamp = ts, m_chunks = [], m_text = js t\<rparr>"

text \<open>A worker busy with another URL, and an idle one; nothing is stored.\<close>

definition busyWorld :: world where
  "busyWorld = \<lparr>PROCESS_QUEUE = [], PROCESSING = True, ENQUEUED_URLS = {},
     CURRENT_URL = Some (js ''b''), pagesStore = [], nextId = 1, processingPages = [],
     pendingCaptures = Map.empty, embeddingMeta = None, embedRequests = [], timers = [],
     loggerLevel = LInfo, logs = []\<rparr>"

definition idleWorld :: world where
  "idleWorld = busyWorld\<lparr>PROCESSING := False, CURRENT_URL := None\<rparr>"

text \<open>
  A stored page titled "notes" with one version of one chunk, "rust raft diagram",
  captured at time 1000.
\<close>

definition exItem :: item where
  "exItem = \<lparr>i_text = js ''rust raft diagram'', embedding = Some [1, 0]\<rparr>"

definition exVersion :: version where
  "exVersion = \<lparr>v_timestamp = 1000, v_hash = 1150416300, v_items = [exItem], v_centroid = Some [1, 0],
     v_summary = []\<rparr>"

definition exPage :: doc where
  "exPage = \<lparr>d_id = 1, canonicalUrl = Some (js ''a''), url = js ''a'', title = js ''notes'',
     timestamp = 1000, latestVersionIndex = Some 0, versions = Some [exVersion],
     items = [exItem], centroid = Some [1, 0], summary = []\<rparr>"

text \<open>
  A provider that embeds every text as \<open>[1, 0]\<close> and gives no summary; URLs are taken
  as canonical; the store holds the example page.
\<close>

definition exEnv :: capEnv where
  "exEnv = \<lparr>canonicalizeUrl = (\<lambda>u. u), embedApi = (\<lambda>ts. Some (map (\<lambda>t. [1, 0]) ts)),
     embedModel = js ''m'', chatSummary = (\<lambda>t. []), txOk = True,
     versioningMaxVersions = 3, versioningSimilarityThreshold = 0.98\<rparr>"

definition exWorld :: world where
  "exWorld = busyWorld\<lparr>pagesStore := [exPage], nextId := 2\<rparr>"



text \<open>
  A configuration with the maximum lowered to 1, and a page with two versions, the second
  being the example version.
\<close>

definition exEnvMax1 :: capEnv where
  "exEnvMax1 = exEnv\<lparr>versioningMaxVersions := 1\<rparr>"

definition exPage2 :: doc where
  "exPage2 = exPage\<lparr>versions := Some [exVersion\<lparr>v_timestamp := 500, v_hash := 1\<rparr>, exVersion],
                      latestVersionIndex := Some 1\<rparr>"

definition exWorld2 :: world where
  "exWorld2 = busyWorld\<lparr>pagesStore := [exPage2], nextId := 2\<rparr>"

text \<open>
  An orchestration whose chat model answers every request with a tool call, whose
  retrieval finds nothing, and whose \<open>maxToolSteps\<close> setting is 0.
\<close>

definition exTool :: toolCall where
  "exTool = \<lparr>tc_name = js ''search_memory'', tc_arguments = js ''{}''\<rparr>"

definition exReply :: reply where
  "exReply = \<lparr>r_content = js ''x'', r_tool_calls = [exTool]\<rparr>"

definition exAskEnv :: "unit askEnv" where
  "exAskEnv = \<lparr>chatModel = js ''m'', answerDetailed = False, askTopConcise = 3,
     askTopDetailed = 5, enableTools = True, maxToolSteps = 0,
     checkModelsOnline = Some True, decomposeQuestion = (\<lambda>q. Some [q]),
     searchMemory = (\<lambda>q. Some []), chat = (\<lambda>ms. ChatOk exReply), newRuntime = (),
     runToolCall = (\<lambda>rt tc. ([], rt)), usedUrlOrder = (\<lambda>rt. []),
     extractMessages = (\<lambda>q hs. []), composeMessages = (\<lambda>q hs e. []),
     composeAnswer = (\<lambda>c hs us. Answer c us), fallbackAnswer = (\<lambda>hs. PlainText []),
     offlineAnswer = PlainText []\<rparr>"








section \<open>Verified properties\<close>

subsection \<open>Text normalisation and hashing\<close>

lemma dropWhile_isSpace_hd: "(case dropWhile isSpace cs of [] \<Rightarrow> True | d # _ \<Rightarrow> \<not> isSpace d)"
  by (induction cs) auto

lemma collapse_hd: "\<not> isSpace d \<Longrightarrow> (case collapseSpaces (d # ds) of [] \<Rightarrow> True | e # _ \<Rightarrow> \<not> isSpace e)"
  by simp

lemma collapse_hd_nonspace:
  "(case cs of [] \<Rightarrow> True | d # _ \<Rightarrow> \<not> isSpace d) \<Longrightarrow>
   (case collapseSpaces cs of [] \<Rightarrow> True | d # _ \<Rightarrow> \<not> isSpace d)"
  by (cases cs) auto

lemma okText_collapse: "okText (collapseSpaces s)"
proof (induction s rule: collapseSpaces.induct)
  case 1
  show ?case by simp
next
  case (2 c cs)
  show ?case
  proof (cases "isSpace c")
    case True
    have "(case collapseSpaces (dropWhile isSpace cs) of [] \<Rightarrow> True | d # _ \<Rightarrow> \<not> isSpace d)"
      by (rule collapse_hd_nonspace) (rule dropWhile_isSpace_hd)
    with True 2 show ?thesis by simp
  next
    case False
    with 2 show ?thesis by (cases cs) (auto split: list.splits)
  qed
qed

lemma collapse_fix: "okText t \<Longrightarrow> collapseSpaces t = t"
proof (induction t rule: collapseSpaces.induct)
  case 1
  show ?case by simp
next
  case (2 c cs)
  then show ?case by (cases cs) auto
qed

lemma okText_dropWhile: "okText t \<Longrightarrow> okText (dropWhile P t)"
  by (induction t) auto

lemma okText_append: "okText (xs @ ys) \<Longrightarrow> okText xs"
proof (induction xs)
  case Nil
  show ?case by simp
next
  case (Cons x xs)
  then show ?case by (cases xs) auto
qed

lemma rev_dropWhile_rev_prefix: "\<exists>zs. t = rev (dropWhile P (rev t)) @ zs"
proof -
  have "rev t = takeWhile P (rev t) @ dropWhile P (rev t)" by simp
  then have "t = rev (dropWhile P (rev t)) @ rev (takeWhile P (rev t))"
    by (metis rev_append rev_rev_ident)
  then show ?thesis ..
qed

lemma okText_trim: "okText t \<Longrightarrow> okText (trim t)"
proof -
  assume a: "okText t"
  let ?u = "dropWhile isSpace t"
  have u: "okText ?u" using a by (rule okText_dropWhile)
  obtain zs where "?u = rev (dropWhile isSpace (rev ?u)) @ zs"
    using rev_dropWhile_rev_prefix by blast
  with u have "okText (rev (dropWhile isSpace (rev ?u)))"
    by (metis okText_append)
  then show ?thesis by (simp add: trim_def)
qed

lemma dropWhile_fix: "(case v of [] \<Rightarrow> True | d # _ \<Rightarrow> \<not> P d) \<Longrightarrow> dropWhile P v = v"
  by (cases v) auto

lemma trim_hd: "(case trim t of [] \<Rightarrow> True | d # _ \<Rightarrow> \<not> isSpace d)"
proof -
  let ?u = "dropWhile isSpace t"
  obtain zs where z: "?u = trim t @ zs"
    unfolding trim_def using rev_dropWhile_rev_prefix by blast
  have "(case ?u of [] \<Rightarrow> True | d # _ \<Rightarrow> \<not> isSpace d)" by (rule dropWhile_isSpace_hd)
  with z show ?thesis by (cases "trim t") auto
qed

lemma trim_trim: "trim (trim t) = trim t"
proof -
  have 1: "dropWhile isSpace (trim t) = trim t"
    by (rule dropWhile_fix) (rule trim_hd)
  have 2: "rev (trim t) = dropWhile isSpace (rev (dropWhile isSpace t))"
    by (simp add: trim_def)
  have 3: "dropWhile isSpace (rev (trim t)) = rev (trim t)"
    unfolding 2 by (rule dropWhile_fix) (rule dropWhile_isSpace_hd)
  show ?thesis
    by (subst (1) trim_def) (simp add: 1 3)
qed

lemma normalizeText_idem: "normalizeText (normalizeText s) = normalizeText s"
proof (cases "s = [] \<or> trim (collapseSpaces s) = []")
  case True
  then show ?thesis by (auto simp: normalizeText_def)
next
  case False
  have "okText (trim (collapseSpaces s))" by (rule okText_trim) (rule okText_collapse)
  then have "collapseSpaces (trim (collapseSpaces s)) = trim (collapseSpaces s)"
    by (rule collapse_fix)
  with False show ?thesis by (simp add: normalizeText_def trim_trim)
qed


text \<open>
  C10. For every string \<open>s\<close>, \<open>stringHash(s) = stringHash(normalizeText(s))\<close>: the
  content hash does not change under white-space collapsing and trimming, so two texts
  with the same normal form have the same hash; and the hash is an unsigned 32-bit
  number.
\<close>

theorem stringHash_normalize_invariant:
  "stringHash s = stringHash (normalizeText s) \<and> stringHash s < 2 ^ 32 \<and>
   (normalizeText a = normalizeText b \<longrightarrow> stringHash a = stringHash b)"
proof -
  have "stringHash s < 2 ^ 32"
    unfolding stringHash_def
    using unsigned_less [of "foldl hashStep 0 (normalizeText s) :: 32 word", where ?'a = nat]
    by simp
  then show ?thesis by (simp add: stringHash_def normalizeText_idem)
qed

theorem stringHash_normalize_invariant_witness:
  "normalizeText (js ''  a   b '') = normalizeText (js ''a b'') \<and>
   stringHash (js ''  a   b '') = stringHash (js ''a b'') \<and>
   stringHash (js ''  a   b '') = 94307"
proof -
  have n: "normalizeText (js ''  a   b '') = normalizeText (js ''a b'')"
    by (simp add: normalizeText_def trim_def js_def isSpace_def)
  have h: "stringHash (js ''a b'') = 94307"
    by (simp add: stringHash_def normalizeText_def trim_def js_def isSpace_def hashStep_def)
  from n h stringHash_normalize_invariant [of "js ''a b''" "js ''  a   b ''" "js ''a b''"]
  show ?thesis by simp
qed

subsection \<open>Cosine similarity\<close>











subsection \<open>Capture queue\<close>

lemma updateQueued_None: "updateQueued u m d q = None \<longleftrightarrow> u \<notin> q_url ` set q"
  by (induction q) auto

lemma updateQueued_urls: "updateQueued u m d q = Some q' \<Longrightarrow> map q_url q' = map q_url q"
  by (induction q arbitrary: q') (auto split: if_splits)

lemma updateQueued_single:
  "filter (\<lambda>it. q_url it = u) q = [e] \<Longrightarrow>
   \<exists>q'. updateQueued u m d q = Some q' \<and>
        filter (\<lambda>it. q_url it = u) q' = [e\<lparr>q_message := m, delayMs := max (delayMs e) d\<rparr>]"
proof (induction q)
  case Nil
  then show ?case by simp
next
  case (Cons it its)
  show ?case
  proof (cases "q_url it = u")
    case True
    with Cons.prems show ?thesis by simp
  next
    case False
    with Cons show ?thesis by auto
  qed
qed

lemma enqueue_fresh_queue:
  assumes "m_url m = u" "u \<noteq> []" "u \<notin> q_url ` set (PROCESS_QUEUE w)"
    "CURRENT_URL w \<noteq> Some u" "CURRENT_URL (enqueueProcess m d w) \<noteq> Some u"
  shows "filter (\<lambda>it. q_url it = u) (PROCESS_QUEUE (enqueueProcess m d w)) =
           [\<lparr>q_url = u, q_message = m, delayMs = d\<rparr>]"
proof -
  have n: "updateQueued u m d (PROCESS_QUEUE w) = None"
    using assms(3) by (simp add: updateQueued_None)
  have f: "filter (\<lambda>it. q_url it = u) (PROCESS_QUEUE w) = []"
    using assms(3) by (auto simp: filter_empty_conv)
  show ?thesis
  proof (cases "PROCESSING w")
    case True
    with assms n f show ?thesis
      by (simp add: enqueueProcess_def runProcessQueue_start_def Let_def)
  next
    case False
    show ?thesis
    proof (cases "PROCESS_QUEUE w")
      case Nil
      with False assms n have "CURRENT_URL (enqueueProcess m d w) = Some u"
        by (simp add: enqueueProcess_def runProcessQueue_start_def Let_def)
      with assms(5) show ?thesis by simp
    next
      case (Cons it rest)
      with assms(3) have "q_url it \<noteq> u" by auto
      with Cons False assms n f show ?thesis
        by (simp add: enqueueProcess_def runProcessQueue_start_def Let_def)
    qed
  qed
qed

lemma enqueue_queued:
  assumes "m_url m = u" "u \<noteq> []" "filter (\<lambda>it. q_url it = u) (PROCESS_QUEUE w) = [e]"
  shows "filter (\<lambda>it. q_url it = u) (PROCESS_QUEUE (enqueueProcess m d w)) =
           [e\<lparr>q_message := m, delayMs := max (delayMs e) d\<rparr>]"
proof -
  from updateQueued_single [OF assms(3), of m d] obtain q' where
    "updateQueued u m d (PROCESS_QUEUE w) = Some q'"
    "filter (\<lambda>it. q_url it = u) q' = [e\<lparr>q_message := m, delayMs := max (delayMs e) d\<rparr>]"
    by blast
  with assms show ?thesis by (simp add: enqueueProcess_def Let_def)
qed

lemma enqueue_distinct:
  assumes "distinct (map q_url (PROCESS_QUEUE w))"
  shows "distinct (map q_url (PROCESS_QUEUE (enqueueProcess m d w)))"
proof (cases "updateQueued (m_url m) m d (PROCESS_QUEUE w)")
  case (Some q')
  with assms updateQueued_urls [OF Some] show ?thesis
    by (simp add: enqueueProcess_def Let_def)
next
  case None
  then have "m_url m \<notin> q_url ` set (PROCESS_QUEUE w)" by (simp add: updateQueued_None)
  with assms None show ?thesis
    by (cases "PROCESS_QUEUE w") (auto simp: enqueueProcess_def runProcessQueue_start_def Let_def)
qed

lemma enqueue_current_dropped:
  assumes "CURRENT_URL w = Some (m_url m)" "m_url m \<notin> q_url ` set (PROCESS_QUEUE w)"
  shows "enqueueProcess m d w = w"
proof -
  have "updateQueued (m_url m) m d (PROCESS_QUEUE w) = None"
    using assms(2) by (simp add: updateQueued_None)
  with assms show ?thesis by (simp add: enqueueProcess_def Let_def)
qed

lemma enqueue_keeps_current:
  assumes "PROCESSING w \<or> PROCESS_QUEUE w \<noteq> []" "u \<notin> q_url ` set (PROCESS_QUEUE w)"
    "CURRENT_URL w \<noteq> Some u"
  shows "CURRENT_URL (enqueueProcess m d w) \<noteq> Some u"
proof (cases "updateQueued (m_url m) m d (PROCESS_QUEUE w)")
  case (Some q)
  with assms show ?thesis by (simp add: enqueueProcess_def Let_def)
next
  case None
  show ?thesis
  proof (cases "PROCESSING w")
    case True
    with None assms show ?thesis
      by (auto simp: enqueueProcess_def runProcessQueue_start_def Let_def)
  next
    case False
    with assms(1) obtain it rest where q: "PROCESS_QUEUE w = it # rest"
      by (cases "PROCESS_QUEUE w") auto
    with assms(2) have "q_url it \<noteq> u" by auto
    with None False q assms(3) show ?thesis
      by (auto simp: enqueueProcess_def runProcessQueue_start_def Let_def)
  qed
qed

lemma enqueue_idle_taken:
  assumes "m_url m = u" "u \<noteq> []" "\<not> PROCESSING w" "PROCESS_QUEUE w = []"
    "CURRENT_URL w \<noteq> Some u"
  shows "CURRENT_URL (enqueueProcess m d w) = Some u \<and> PROCESS_QUEUE (enqueueProcess m d w) = [] \<and>
         PROCESSING (enqueueProcess m d w)"
  using assms by (simp add: enqueueProcess_def runProcessQueue_start_def Let_def)

text \<open>
  C4. Two calls of \<open>enqueueProcess\<close> with the same URL \<open>u\<close>, in a state \<open>w\<close> in which
  the worker does not hold \<open>u\<close>. When \<open>u\<close> is not queued and the worker is busy (or other
  entries wait in the queue), the two calls leave exactly one queue entry for \<open>u\<close>, with the
  payload of the second call and the larger of the two delays. When \<open>u\<close> is queued once, it
  stays queued once, with the payload of the second call and the largest of the three
  delays. When the worker is idle and the queue is empty, the first call is taken by
  the worker at once, whatever its delay (the worker holds the URL while it sleeps, before
  \<open>processAndStore\<close>), and the second call changes nothing: no entry carries the
  later payload. A call never creates a duplicate entry, and a call for the URL that the
  worker holds is dropped.
\<close>

theorem enqueueProcess_same_url_twice:
  assumes "m_url m1 = u" "m_url m2 = u" "u \<noteq> []"
  shows "(u \<notin> q_url ` set (PROCESS_QUEUE w) \<and> CURRENT_URL w \<noteq> Some u \<and>
          (PROCESSING w \<or> PROCESS_QUEUE w \<noteq> []) \<longrightarrow>
            filter (\<lambda>it. q_url it = u) (PROCESS_QUEUE (enqueueProcess m2 d2 (enqueueProcess m1 d1 w))) =
              [\<lparr>q_url = u, q_message = m2, delayMs = max d1 d2\<rparr>]) \<and>
         (filter (\<lambda>it. q_url it = u) (PROCESS_QUEUE w) = [e] \<longrightarrow>
            filter (\<lambda>it. q_url it = u) (PROCESS_QUEUE (enqueueProcess m2 d2 (enqueueProcess m1 d1 w))) =
              [e\<lparr>q_message := m2, delayMs := max (max (delayMs e) d1) d2\<rparr>]) \<and>
         (\<not> PROCESSING w \<and> PROCESS_QUEUE w = [] \<and> CURRENT_URL w \<noteq> Some u \<longrightarrow>
            CURRENT_URL (enqueueProcess m1 d1 w) = Some u \<and>
            PROCESS_QUEUE (enqueueProcess m1 d1 w) = [] \<and>
            enqueueProcess m2 d2 (enqueueProcess m1 d1 w) = enqueueProcess m1 d1 w) \<and>
         (distinct (map q_url (PROCESS_QUEUE w)) \<longrightarrow>
            distinct (map q_url (PROCESS_QUEUE (enqueueProcess m1 d1 w))) \<and>
            distinct (map q_url (PROCESS_QUEUE (enqueueProcess m2 d2 (enqueueProcess m1 d1 w))))) \<and>
         (u \<notin> q_url ` set (PROCESS_QUEUE w) \<and> CURRENT_URL w = Some u \<longrightarrow>
            enqueueProcess m1 d1 w = w)"
proof (intro conjI impI)
  assume a: "u \<notin> q_url ` set (PROCESS_QUEUE w) \<and> CURRENT_URL w \<noteq> Some u \<and>
          (PROCESSING w \<or> PROCESS_QUEUE w \<noteq> [])"
  then have "CURRENT_URL (enqueueProcess m1 d1 w) \<noteq> Some u"
    by (intro enqueue_keeps_current) auto
  with a have "filter (\<lambda>it. q_url it = u) (PROCESS_QUEUE (enqueueProcess m1 d1 w)) =
           [\<lparr>q_url = u, q_message = m1, delayMs = d1\<rparr>]"
    using assms by (intro enqueue_fresh_queue) auto
  from enqueue_queued [OF assms(2) assms(3) this, of d2]
  show "filter (\<lambda>it. q_url it = u) (PROCESS_QUEUE (enqueueProcess m2 d2 (enqueueProcess m1 d1 w))) =
              [\<lparr>q_url = u, q_message = m2, delayMs = max d1 d2\<rparr>]"
    by simp
next
  assume "filter (\<lambda>it. q_url it = u) (PROCESS_QUEUE w) = [e]"
  from enqueue_queued [OF assms(1) assms(3) this, of d1]
  have "filter (\<lambda>it. q_url it = u) (PROCESS_QUEUE (enqueueProcess m1 d1 w)) =
           [e\<lparr>q_message := m1, delayMs := max (delayMs e) d1\<rparr>]" .
  from enqueue_queued [OF assms(2) assms(3) this, of d2]
  show "filter (\<lambda>it. q_url it = u) (PROCESS_QUEUE (enqueueProcess m2 d2 (enqueueProcess m1 d1 w))) =
              [e\<lparr>q_message := m2, delayMs := max (max (delayMs e) d1) d2\<rparr>]"
    by simp
next
  assume a: "\<not> PROCESSING w \<and> PROCESS_QUEUE w = [] \<and> CURRENT_URL w \<noteq> Some u"
  with assms have t: "CURRENT_URL (enqueueProcess m1 d1 w) = Some u \<and>
      PROCESS_QUEUE (enqueueProcess m1 d1 w) = [] \<and> PROCESSING (enqueueProcess m1 d1 w)"
    by (intro enqueue_idle_taken) auto
  from t show "CURRENT_URL (enqueueProcess m1 d1 w) = Some u" by blast
  from t show "PROCESS_QUEUE (enqueueProcess m1 d1 w) = []" by blast
  from t assms(2) show "enqueueProcess m2 d2 (enqueueProcess m1 d1 w) = enqueueProcess m1 d1 w"
    by (intro enqueue_current_dropped) auto
next
  assume "distinct (map q_url (PROCESS_QUEUE w))"
  then show "distinct (map q_url (PROCESS_QUEUE (enqueueProcess m1 d1 w)))"
    by (rule enqueue_distinct)
next
  assume "distinct (map q_url (PROCESS_QUEUE w))"
  then have "distinct (map q_url (PROCESS_QUEUE (enqueueProcess m1 d1 w)))"
    by (rule enqueue_distinct)
  then show "distinct (map q_url (PROCESS_QUEUE (enqueueProcess m2 d2 (enqueueProcess m1 d1 w))))"
    by (rule enqueue_distinct)
next
  assume "u \<notin> q_url ` set (PROCESS_QUEUE w) \<and> CURRENT_URL w = Some u"
  with assms(1) show "enqueueProcess m1 d1 w = w"
    by (intro enqueue_current_dropped) auto
qed

theorem enqueueProcess_same_url_twice_witness:
  "filter (\<lambda>it. q_url it = js ''a'')
      (PROCESS_QUEUE (enqueueProcess (exMsg ''a'' ''new'' 2) 0 (enqueueProcess (exMsg ''a'' ''old'' 1) 500 busyWorld))) =
     [\<lparr>q_url = js ''a'', q_message = exMsg ''a'' ''new'' 2, delayMs = 500\<rparr>] \<and>
   enqueueProcess (exMsg ''b'' ''old'' 1) 0 busyWorld = busyWorld \<and>
   enqueueProcess (exMsg ''a'' ''new'' 2) 0 (enqueueProcess (exMsg ''a'' ''old'' 1) 500 idleWorld) =
     enqueueProcess (exMsg ''a'' ''old'' 1) 500 idleWorld"
proof -
  have u: "m_url (exMsg ''a'' ''old'' 1) = js ''a''" "m_url (exMsg ''a'' ''new'' 2) = js ''a''"
    "m_url (exMsg ''b'' ''old'' 1) = js ''b''" "m_url (exMsg ''b'' ''new'' 2) = js ''b''"
    by (simp_all add: exMsg_def)
  have ne: "js ''a'' \<noteq> []" "js ''b'' \<noteq> []" "js ''a'' \<noteq> js ''b''" by (simp_all add: js_def)
  have q: "PROCESS_QUEUE busyWorld = []" "CURRENT_URL busyWorld = Some (js ''b'')"
    "PROCESSING busyWorld"
    by (simp_all add: busyWorld_def)
  have i: "PROCESS_QUEUE idleWorld = []" "CURRENT_URL idleWorld = None" "\<not> PROCESSING idleWorld"
    by (simp_all add: idleWorld_def busyWorld_def)
  note t1 = enqueueProcess_same_url_twice [OF u(1) u(2) ne(1), where w = busyWorld and ?d1.0 = 500 and ?d2.0 = 0]
  note t2 = enqueueProcess_same_url_twice [OF u(3) u(4) ne(2), where w = busyWorld and ?d1.0 = 0 and ?d2.0 = 0]
  note t3 = enqueueProcess_same_url_twice [OF u(1) u(2) ne(1), where w = idleWorld and ?d1.0 = 500 and ?d2.0 = 0]
  from t1 q ne have 1: "filter (\<lambda>it. q_url it = js ''a'')
      (PROCESS_QUEUE (enqueueProcess (exMsg ''a'' ''new'' 2) 0 (enqueueProcess (exMsg ''a'' ''old'' 1) 500 busyWorld))) =
     [\<lparr>q_url = js ''a'', q_message = exMsg ''a'' ''new'' 2, delayMs = 500\<rparr>]"
    by simp
  from t2 q have 2: "enqueueProcess (exMsg ''b'' ''old'' 1) 0 busyWorld = busyWorld"
    by simp
  from t3 i have 3: "enqueueProcess (exMsg ''a'' ''new'' 2) 0 (enqueueProcess (exMsg ''a'' ''old'' 1) 500 idleWorld) =
     enqueueProcess (exMsg ''a'' ''old'' 1) 500 idleWorld"
    by simp
  from 1 2 3 show ?thesis by blast
qed

text \<open>
  Two calls for the same URL before its processing starts, on an idle worker: the first,
  with a delay of 500 ms, is taken from the queue at once; the second is dropped, and the
  queue holds no entry with the later payload.
\<close>

theorem enqueueProcess_idle_counterexample:
  "\<not> PROCESSING idleWorld \<and> CURRENT_URL idleWorld = None \<and> PROCESS_QUEUE idleWorld = [] \<and>
   CURRENT_URL (enqueueProcess (exMsg ''a'' ''old'' 1) 500 idleWorld) = Some (js ''a'') \<and>
   PROCESS_QUEUE (enqueueProcess (exMsg ''a'' ''old'' 1) 500 idleWorld) = [] \<and>
   PROCESS_QUEUE (enqueueProcess (exMsg ''a'' ''new'' 2) 0
                    (enqueueProcess (exMsg ''a'' ''old'' 1) 500 idleWorld)) = [] \<and>
   filter (\<lambda>it. q_url it = js ''a'')
     (PROCESS_QUEUE (enqueueProcess (exMsg ''a'' ''new'' 2) 0
                       (enqueueProcess (exMsg ''a'' ''old'' 1) 500 idleWorld))) \<noteq>
     [\<lparr>q_url = js ''a'', q_message = exMsg ''a'' ''new'' 2, delayMs = 500\<rparr>]"
  by (simp add: enqueueProcess_def runProcessQueue_start_def idleWorld_def busyWorld_def exMsg_def js_def Let_def)

subsection \<open>Stage-2 chunk scoring\<close>

lemma maxSim_foldl:
  "foldl (maxSimStep emb) (Some x) ves =
     Some (Max (insert x ((\<lambda>ve. cosineSimilarity (Some ve) emb) ` set ves)))"
proof (induction ves arbitrary: x)
  case Nil
  show ?case by simp
next
  case (Cons v vs)
  let ?f = "\<lambda>ve. cosineSimilarity (Some ve) emb"
  let ?B = "insert (?f v) (?f ` set vs)"
  let ?C = "insert x (?f ` set vs)"
  have fin: "finite ?B" "?B \<noteq> {}" "finite ?C" "?C \<noteq> {}" by simp_all
  show ?case
  proof (cases "?f v > x")
    case True
    have "?f v \<le> Max ?B" using fin(1) by (intro Max_ge) simp_all
    with True have "x \<le> Max ?B" by linarith
    then have "Max (insert x ?B) = Max ?B"
      using Max_insert [OF fin(1) fin(2), of x] by (simp add: max_def)
    with True Cons show ?thesis by (simp add: maxSimStep_def Let_def)
  next
    case False
    have "x \<le> Max ?C" using fin(3) by (intro Max_ge) simp_all
    with False have "?f v \<le> Max ?C" by linarith
    then have "Max (insert (?f v) ?C) = Max ?C"
      using Max_insert [OF fin(3) fin(4), of "?f v"] by (simp add: max_def)
    then have "Max (insert x ?B) = Max ?C" by (simp add: insert_commute)
    with False Cons show ?thesis by (simp add: maxSimStep_def Let_def)
  qed
qed


lemma maxCosine_None: "maxCosine emb ves = None \<longleftrightarrow> ves = []"
  by (cases ves) (simp_all add: maxCosine_def maxSimStep_def maxSim_foldl)
















subsection \<open>Fast path for unchanged content\<close>

lemma getByCanonicalUrl_mem:
  "getByCanonicalUrl env c w = Some d \<Longrightarrow> d \<in> set (pagesStore w)"
  by (auto simp: getByCanonicalUrl_def find_Some_iff split: option.splits)

lemma getByCanonicalUrl_store:
  "pagesStore w1 = pagesStore w \<Longrightarrow> getByCanonicalUrl env c w1 = getByCanonicalUrl env c w"
  by (simp add: getByCanonicalUrl_def split: option.splits)

lemma addProcessingPage_frame:
  "pagesStore (addProcessingPage e w) = pagesStore w"
  "embedRequests (addProcessingPage e w) = embedRequests w"
  "embeddingMeta (addProcessingPage e w) = embeddingMeta w"
  "nextId (addProcessingPage e w) = nextId w"
  "pendingCaptures (addProcessingPage e w) = pendingCaptures w"
  "timers (addProcessingPage e w) = timers w"
  by (simp_all add: addProcessingPage_def Let_def)

lemma removeProcessingPage_frame:
  "pagesStore (removeProcessingPage u w) = pagesStore w"
  "embedRequests (removeProcessingPage u w) = embedRequests w"
  "embeddingMeta (removeProcessingPage u w) = embeddingMeta w"
  "pendingCaptures (removeProcessingPage u w) = pendingCaptures w"
  "timers (removeProcessingPage u w) = timers w"
  by (simp_all add: removeProcessingPage_def)

lemma removePendingCapture_frame:
  "pagesStore (removePendingCapture u w) = pagesStore w"
  "embedRequests (removePendingCapture u w) = embedRequests w"
  "embeddingMeta (removePendingCapture u w) = embeddingMeta w"
  "processingPages (removePendingCapture u w) = processingPages w"
  "timers (removePendingCapture u w) = timers w"
  by (simp_all add: removePendingCapture_def)

lemma updateProcessingPage_frame:
  "pagesStore (updateProcessingPage u f w) = pagesStore w"
  "embedRequests (updateProcessingPage u f w) = embedRequests w"
  "embeddingMeta (updateProcessingPage u f w) = embeddingMeta w"
  "pendingCaptures (updateProcessingPage u f w) = pendingCaptures w"
  "timers (updateProcessingPage u f w) = timers w"
  by (simp_all add: updateProcessingPage_def)

lemma putDoc_frame:
  "embedRequests (putDoc d w) = embedRequests w"
  "embeddingMeta (putDoc d w) = embeddingMeta w"
  "processingPages (putDoc d w) = processingPages w"
  "pendingCaptures (putDoc d w) = pendingCaptures w"
  "timers (putDoc d w) = timers w"
  by (simp_all add: putDoc_def)

lemma putDoc_store:
  "d0 \<in> set (pagesStore w) \<Longrightarrow> d_id d = d_id d0 \<Longrightarrow>
   pagesStore (putDoc d w) = map (\<lambda>p. if d_id p = d_id d0 then d else p) (pagesStore w)"
  by (auto simp: putDoc_def list_ex_iff)

lemma LOGGER_log_frame:
  "pagesStore (LOGGER_log lvl msg u att w) = pagesStore w"
  "embedRequests (LOGGER_log lvl msg u att w) = embedRequests w"
  "embeddingMeta (LOGGER_log lvl msg u att w) = embeddingMeta w"
  "processingPages (LOGGER_log lvl msg u att w) = processingPages w"
  "pendingCaptures (LOGGER_log lvl msg u att w) = pendingCaptures w"
  "timers (LOGGER_log lvl msg u att w) = timers w"
  "PROCESS_QUEUE (LOGGER_log lvl msg u att w) = PROCESS_QUEUE w"
  "loggerLevel (LOGGER_log lvl msg u att w) = loggerLevel w"
  by (simp_all add: LOGGER_log_def appendLogRow_def Let_def)

lemma handleFailure_frame:
  "pagesStore (handleFailure m w) = pagesStore w"
  "embedRequests (handleFailure m w) = embedRequests w"
  "embeddingMeta (handleFailure m w) = embeddingMeta w"
  by (simp_all add: handleFailure_def Let_def updateProcessingPage_frame
      removeProcessingPage_frame removePendingCapture_frame LOGGER_log_frame)

text \<open>The document that the fast path writes.\<close>

lemma fastPath_latest:
  assumes "versions d = Some vs" "latestVersionIndex d = Some idx" "0 \<le> idx" "idx < int (length vs)"
    "v_hash (vs ! nat idx) = h"
  shows "fastPath m h (Some d) =
     Some (d\<lparr>versions := Some (vs[nat idx := (vs ! nat idx)\<lparr>v_timestamp := m_timestamp m\<rparr>]),
              timestamp := m_timestamp m,
              title := (if m_title m \<noteq> [] then m_title m else title d),
              url := (if m_url m \<noteq> [] then m_url m else url d)\<rparr>)"
  using assms by (simp add: fastPath_def elemAt_def Let_def)

lemma processAndStore_fast:
  assumes u: "m_url m \<noteq> []"
    and f: "getByCanonicalUrl env (canonicalizeUrl env (m_url m)) w = Some d"
    and fp: "fastPath m (stringHash (normalizeText (m_text m))) (Some d) = Some d'"
  shows "\<exists>w'. processAndStore env m w = Inr w' \<and>
           embedRequests w' = embedRequests w \<and> embeddingMeta w' = embeddingMeta w \<and>
           pagesStore w' = (if txOk env then pagesStore (putDoc d' w) else pagesStore w)"
proof -
  let ?e = "\<lparr>p_url = m_url m, p_title = m_title m, p_timestamp = m_timestamp m,
              status = StProcessing, attempts = 0\<rparr>"
  let ?w1 = "addProcessingPage ?e w"
  have g: "getByCanonicalUrl env (canonicalizeUrl env (m_url m)) ?w1 = Some d"
    using f getByCanonicalUrl_store [of ?w1 w] by (simp add: addProcessingPage_frame)
  have p: "pagesStore (putDoc d' ?w1) = pagesStore (putDoc d' w)"
    by (simp add: putDoc_def addProcessingPage_frame)
  show ?thesis
  proof (cases "txOk env")
    case True
    with u g fp p show ?thesis
      by (simp add: processAndStore_def processBody_def Let_def
          removeProcessingPage_frame removePendingCapture_frame putDoc_frame addProcessingPage_frame)
  next
    case False
    with u g fp show ?thesis
      by (simp add: processAndStore_def processBody_def Let_def handleFailure_frame
          addProcessingPage_frame)
  qed
qed

text \<open>
  C2. When the stored document of the captured URL has a latest version whose hash equals
  the content hash of the normalised text, \<open>processAndStore\<close> sends no embedding request
  and writes the document back with the capture timestamp as the timestamp of that
  version and of the document (title and URL are taken from the capture); no version is
  added, and \<open>latestVersionIndex\<close>, every other version and the top-level items,
  centroid and summary are unchanged. When the write transaction fails, the store is
  unchanged.
\<close>

theorem processAndStore_unchanged_hash:
  assumes "m_url m \<noteq> []"
    and "getByCanonicalUrl env (canonicalizeUrl env (m_url m)) w = Some d"
    and "versions d = Some vs" and "latestVersionIndex d = Some idx"
    and "0 \<le> idx" and "idx < int (length vs)"
    and "v_hash (vs ! nat idx) = stringHash (normalizeText (m_text m))"
  shows "\<exists>w'. processAndStore env m w = Inr w' \<and>
     embedRequests w' = embedRequests w \<and>
     (txOk env \<longrightarrow>
        pagesStore w' =
          map (\<lambda>p. if d_id p = d_id d
                    then d\<lparr>versions := Some (vs[nat idx := (vs ! nat idx)\<lparr>v_timestamp := m_timestamp m\<rparr>]),
                           timestamp := m_timestamp m,
                           title := (if m_title m \<noteq> [] then m_title m else title d),
                           url := m_url m\<rparr>
                    else p) (pagesStore w)) \<and>
     (\<not> txOk env \<longrightarrow> pagesStore w' = pagesStore w)"
proof -
  let ?d' = "d\<lparr>versions := Some (vs[nat idx := (vs ! nat idx)\<lparr>v_timestamp := m_timestamp m\<rparr>]),
                           timestamp := m_timestamp m,
                           title := (if m_title m \<noteq> [] then m_title m else title d),
                           url := m_url m\<rparr>"
  have fp: "fastPath m (stringHash (normalizeText (m_text m))) (Some d) = Some ?d'"
    using fastPath_latest [OF assms(3-7), of m] assms(1) by simp
  have mem: "d \<in> set (pagesStore w)" using assms(2) by (rule getByCanonicalUrl_mem)
  have st: "pagesStore (putDoc ?d' w) = map (\<lambda>p. if d_id p = d_id d then ?d' else p) (pagesStore w)"
    by (rule putDoc_store [OF mem]) simp
  from processAndStore_fast [OF assms(1) assms(2) fp] obtain w' where
    w': "processAndStore env m w = Inr w'" "embedRequests w' = embedRequests w"
      "pagesStore w' = (if txOk env then pagesStore (putDoc ?d' w) else pagesStore w)"
    by blast
  show ?thesis
  proof (intro exI [of _ w'] conjI impI)
    show "processAndStore env m w = Inr w'" by fact
    show "embedRequests w' = embedRequests w" by fact
    show "pagesStore w' = map (\<lambda>p. if d_id p = d_id d then ?d' else p) (pagesStore w)" if "txOk env"
      using that w'(3) st by simp
    show "pagesStore w' = pagesStore w" if "\<not> txOk env"
      using that w'(3) by simp
  qed
qed

lemma ex_fast_msg:
  "stringHash (normalizeText (js ''  rust   raft diagram '')) = 1150416300"
proof -
  have n: "normalizeText (js ''  rust   raft diagram '') = js ''rust raft diagram''"
    by (simp add: normalizeText_def trim_def js_def isSpace_def)
  have "normalizeText (normalizeText (js ''  rust   raft diagram '')) = js ''rust raft diagram''"
    unfolding n by (simp add: normalizeText_def trim_def js_def isSpace_def)
  then show ?thesis
    unfolding stringHash_def by (simp add: js_def hashStep_def)
qed

theorem processAndStore_unchanged_hash_witness:
  "\<exists>w'. processAndStore exEnv (exMsg ''a'' ''  rust   raft diagram '' 2000) exWorld = Inr w' \<and>
     embedRequests w' = [] \<and>
     pagesStore w' = [exPage\<lparr>versions := Some [exVersion\<lparr>v_timestamp := 2000\<rparr>],
                             timestamp := 2000, title := js ''t'', url := js ''a''\<rparr>]"
proof -
  let ?m = "exMsg ''a'' ''  rust   raft diagram '' 2000"
  have a1: "m_url ?m \<noteq> []" by (simp add: exMsg_def js_def)
  have a2: "getByCanonicalUrl exEnv (canonicalizeUrl exEnv (m_url ?m)) exWorld = Some exPage"
    by (simp add: getByCanonicalUrl_def exEnv_def exWorld_def exPage_def exMsg_def)
  have a3: "versions exPage = Some [exVersion]" "latestVersionIndex exPage = Some 0"
    by (simp_all add: exPage_def)
  have a4: "(0::int) \<le> 0" "(0::int) < int (length [exVersion])" by simp_all
  have a5: "v_hash ([exVersion] ! nat 0) = stringHash (normalizeText (m_text ?m))"
    using ex_fast_msg by (simp add: exVersion_def exMsg_def)
  have t: "m_title ?m = js ''t''" "js ''t'' \<noteq> []" "m_timestamp ?m = 2000" "m_url ?m = js ''a''"
    by (simp_all add: exMsg_def js_def)
  have e: "txOk exEnv" "embedRequests exWorld = []" "pagesStore exWorld = [exPage]"
    by (simp_all add: exEnv_def exWorld_def busyWorld_def)
  from processAndStore_unchanged_hash [OF a1 a2 a3 a4 a5]
  show ?thesis unfolding t e using e(1) by (simp add: t)
qed

subsection \<open>Failure handling of the capture\<close>

lemma ensureEmbeddingMeta_frame:
  "pagesStore (ensureEmbeddingMeta mo n w) = pagesStore w"
  "processingPages (ensureEmbeddingMeta mo n w) = processingPages w"
  "pendingCaptures (ensureEmbeddingMeta mo n w) = pendingCaptures w"
  "timers (ensureEmbeddingMeta mo n w) = timers w"
  "nextId (ensureEmbeddingMeta mo n w) = nextId w"
  by (simp_all add: ensureEmbeddingMeta_def split: option.splits)

lemma computeEmbedding_frame:
  assumes "computeEmbedding env t w = (r, w1)"
  shows "pagesStore w1 = pagesStore w \<and> processingPages w1 = processingPages w \<and>
         pendingCaptures w1 = pendingCaptures w \<and> timers w1 = timers w \<and> nextId w1 = nextId w"
  using assms
  by (auto simp: computeEmbedding_def Let_def ensureEmbeddingMeta_frame
      split: option.splits list.splits)

lemma embedEach_frame:
  "embedEach env ts w = (r, w1) \<Longrightarrow>
     pagesStore w1 = pagesStore w \<and> processingPages w1 = processingPages w \<and>
     pendingCaptures w1 = pendingCaptures w \<and> timers w1 = timers w \<and> nextId w1 = nextId w"
proof (induction ts arbitrary: w r w1)
  case Nil
  then show ?case by simp
next
  case (Cons t ts)
  obtain o1 wa where c: "computeEmbedding env t w = (o1, wa)" by (cases "computeEmbedding env t w")
  note f = computeEmbedding_frame [OF c]
  show ?case
  proof (cases o1)
    case None
    with Cons.prems c have "embedEach env ts wa = (r, w1)" by simp
    from Cons.IH [OF this] f show ?thesis by simp
  next
    case (Some v)
    obtain vs wb where e: "embedEach env ts wa = (vs, wb)" by (cases "embedEach env ts wa")
    with Cons.prems c Some have "w1 = wb" by simp
    with Cons.IH [OF e] f show ?thesis by simp
  qed
qed

lemma computeEmbeddingsBatch_frame:
  assumes "computeEmbeddingsBatch env ts w = (r, w1)"
  shows "pagesStore w1 = pagesStore w \<and> processingPages w1 = processingPages w \<and>
         pendingCaptures w1 = pendingCaptures w \<and> timers w1 = timers w \<and> nextId w1 = nextId w"
proof (cases "ts = []")
  case True
  with assms show ?thesis by (simp add: computeEmbeddingsBatch_def)
next
  case False
  let ?w1 = "w\<lparr>embedRequests := embedRequests w @ [ts]\<rparr>"
  show ?thesis
  proof (cases "\<exists>embs. embedApi env ts = Some embs \<and> length embs = length ts")
    case True
    with assms False show ?thesis
      by (auto simp: computeEmbeddingsBatch_def Let_def ensureEmbeddingMeta_frame)
  next
    case f: False
    with assms False have "embedEach env ts ?w1 = (r, w1)"
      by (auto simp: computeEmbeddingsBatch_def Let_def split: option.splits if_splits)
    from embedEach_frame [OF this] show ?thesis by simp
  qed
qed

text \<open>The state in which a failed \<open>try\<close> block leaves the stored values.\<close>

lemma processBody_Inl_frame:
  assumes "processBody env m w = Inl wx"
  shows "processingPages wx =
           processingPages (addProcessingPage \<lparr>p_url = m_url m, p_title = m_title m,
              p_timestamp = m_timestamp m, status = StProcessing, attempts = 0\<rparr> w) \<and>
         pendingCaptures wx = pendingCaptures w \<and> timers wx = timers w \<and>
         pagesStore wx = pagesStore w"
proof -
  let ?w1 = "addProcessingPage \<lparr>p_url = m_url m, p_title = m_title m,
              p_timestamp = m_timestamp m, status = StProcessing, attempts = 0\<rparr> w"
  obtain embs w2 where e: "computeEmbeddingsBatch env (chunksArr m) ?w1 = (embs, w2)"
    by (cases "computeEmbeddingsBatch env (chunksArr m) ?w1")
  note f = computeEmbeddingsBatch_frame [OF e]
  from assms have "wx = ?w1 \<or> wx = w2"
    by (auto simp: processBody_def Let_def e split: option.splits if_splits)
  with f show ?thesis by (auto simp: addProcessingPage_frame)
qed





lemma attemptsBefore_log: "attemptsBefore u (LOGGER_log lvl msg u' att w) = attemptsBefore u w"
  by (simp add: attemptsBefore_def LOGGER_log_frame)







subsection \<open>Document invariant of the version merger\<close>

lemma maxN_pos: "1 \<le> maxN mv"
  by (simp add: maxN_def)

lemma nat_diff_maxN:
  "1 \<le> (k::int) \<Longrightarrow> nat (int n + 1 - k) = n + 1 - nat k"
  by linarith

lemma pushAndEvict_drop:
  "pushAndEvict mv vs v = drop (length vs + 1 - nat (maxN mv)) (vs @ [v])"
proof (cases "int (length (vs @ [v])) > maxN mv")
  case True
  have "nat (int (length (vs @ [v])) - maxN mv) = length vs + 1 - nat (maxN mv)"
    using nat_diff_maxN [OF maxN_pos, of "length vs" mv] by simp
  with True show ?thesis
    unfolding pushAndEvict_def Let_def by (simp only: if_True)
next
  case False
  then have "length vs + 1 - nat (maxN mv) = 0" by simp
  with False show ?thesis
    unfolding pushAndEvict_def Let_def by (simp only: if_False drop_0)
qed

lemma pushAndEvict_append:
  "pushAndEvict mv vs v = drop (length vs + 1 - nat (maxN mv)) vs @ [v]"
proof -
  have "length vs + 1 - nat (maxN mv) \<le> length vs" using maxN_pos [of mv] by linarith
  then show ?thesis unfolding pushAndEvict_drop by simp
qed

lemma pushAndEvict_length:
  "int (length (pushAndEvict mv vs v)) \<le> maxN mv" "length (pushAndEvict mv vs v) \<ge> 1"
  "length (pushAndEvict mv vs v) \<le> length vs + 1"
proof -
  have p: "1 \<le> maxN mv" by (rule maxN_pos)
  have l: "length (pushAndEvict mv vs v) = length vs - (length vs + 1 - nat (maxN mv)) + 1"
    unfolding pushAndEvict_append by simp
  show "int (length (pushAndEvict mv vs v)) \<le> maxN mv" unfolding l using p by linarith
  show "length (pushAndEvict mv vs v) \<ge> 1" unfolding l by simp
  show "length (pushAndEvict mv vs v) \<le> length vs + 1" unfolding l by simp
qed

lemma pushAndEvict_last:
  "pushAndEvict mv vs v ! (length (pushAndEvict mv vs v) - 1) = v"
  unfolding pushAndEvict_append
  by (simp only: length_append_singleton diff_Suc_1 nth_append_length)

lemma docInv_versioned: "docInv mv d \<Longrightarrow> versioned d"
  by (auto simp: docInv_def latestInv_def versioned_def split: option.splits)

lemma latestInv_versioned: "latestInv d \<Longrightarrow> versioned d"
  by (auto simp: latestInv_def versioned_def split: option.splits)

lemma legacyVersions_versioned: "versioned d \<Longrightarrow> legacyVersions ts d = d"
  by (auto simp: legacyVersions_def versioned_def)

lemma legacyVersions_legacy:
  "\<not> versioned d \<Longrightarrow>
   \<exists>v0. versions (legacyVersions ts d) = Some [v0] \<and> latestVersionIndex (legacyVersions ts d) = Some 0"
  by (auto simp: legacyVersions_def versioned_def Let_def)

lemma legacyVersions_some:
  "\<exists>vs idx. versions (legacyVersions ts d) = Some vs \<and>
            latestVersionIndex (legacyVersions ts d) = Some idx"
proof (cases "versioned d")
  case True
  then show ?thesis by (auto simp: legacyVersions_versioned versioned_def)
next
  case False
  from legacyVersions_legacy [OF False, of ts] show ?thesis by blast
qed

lemma legacyVersions_id: "d_id (legacyVersions ts d) = d_id d"
  by (simp add: legacyVersions_def Let_def)

text \<open>After the legacy conversion the bound on the number of versions holds when it held before.\<close>

lemma legacyVersions_count:
  assumes "versioned d \<longrightarrow> countInv mv d" "versions (legacyVersions ts d) = Some vs"
  shows "int (length vs) \<le> maxN mv"
proof (cases "versioned d")
  case True
  with assms show ?thesis by (auto simp: legacyVersions_versioned countInv_def)
next
  case False
  from legacyVersions_legacy [OF False, of ts] assms(2) maxN_pos [of mv] show ?thesis by auto
qed

text \<open>The fast path changes time stamps, title and URL only.\<close>

lemma fastPath_shape:
  assumes "fastPath m h (Some d0) = Some d"
  shows "\<exists>vs idx i. versions d0 = Some vs \<and> latestVersionIndex d0 = Some idx \<and> i < length vs \<and>
           (0 \<le> idx \<and> idx < int (length vs) \<longrightarrow> i = nat idx) \<and>
           d = d0\<lparr>versions := Some (vs[i := (vs ! i)\<lparr>v_timestamp := m_timestamp m\<rparr>]),
                  timestamp := m_timestamp m,
                  title := (if m_title m \<noteq> [] then m_title m else title d0),
                  url := (if m_url m \<noteq> [] then m_url m else url d0)\<rparr>"
proof -
  from assms obtain vs idx where v: "versions d0 = Some vs" "latestVersionIndex d0 = Some idx"
    by (auto simp: fastPath_def split: option.splits)
  show ?thesis
  proof (cases "0 \<le> idx \<and> idx < int (length vs)")
    case True
    then have n: "nat idx < length vs" by linarith
    from assms v True have "d = d0\<lparr>versions := Some (vs[nat idx := (vs ! nat idx)\<lparr>v_timestamp := m_timestamp m\<rparr>]),
                  timestamp := m_timestamp m,
                  title := (if m_title m \<noteq> [] then m_title m else title d0),
                  url := (if m_url m \<noteq> [] then m_url m else url d0)\<rparr>"
      by (auto simp: fastPath_def elemAt_def Let_def split: if_splits)
    with v n True show ?thesis by blast
  next
    case False
    with assms v have ne: "vs \<noteq> []"
      by (auto simp: fastPath_def elemAt_def Let_def split: if_splits)
    then have n: "length vs - 1 < length vs" by (cases vs) auto
    from assms v False ne have "d = d0\<lparr>versions := Some (vs[length vs - 1 := (vs ! (length vs - 1))\<lparr>v_timestamp := m_timestamp m\<rparr>]),
                  timestamp := m_timestamp m,
                  title := (if m_title m \<noteq> [] then m_title m else title d0),
                  url := (if m_url m \<noteq> [] then m_url m else url d0)\<rparr>"
      by (auto simp: fastPath_def elemAt_def Let_def split: if_splits)
    with v n False show ?thesis by blast
  qed
qed

lemma fastPath_keeps:
  assumes "fastPath m h (Some d0) = Some d"
  shows "d_id d = d_id d0 \<and> latestVersionIndex d = latestVersionIndex d0 \<and>
         map_option length (versions d) = map_option length (versions d0) \<and>
         items d = items d0 \<and> centroid d = centroid d0 \<and> summary d = summary d0 \<and>
         (latestInv d0 \<longrightarrow> latestInv d) \<and> (countInv mv d \<longleftrightarrow> countInv mv d0)"
proof -
  from fastPath_shape [OF assms] obtain vs idx i where
    s: "versions d0 = Some vs" "latestVersionIndex d0 = Some idx" "i < length vs"
       "0 \<le> idx \<and> idx < int (length vs) \<longrightarrow> i = nat idx"
       "d = d0\<lparr>versions := Some (vs[i := (vs ! i)\<lparr>v_timestamp := m_timestamp m\<rparr>]),
                  timestamp := m_timestamp m,
                  title := (if m_title m \<noteq> [] then m_title m else title d0),
                  url := (if m_url m \<noteq> [] then m_url m else url d0)\<rparr>"
    by blast
  have l: "latestInv d0 \<longrightarrow> latestInv d"
  proof
    assume "latestInv d0"
    with s(1,2) have r: "0 \<le> idx" "idx < int (length vs)"
      "items d0 = v_items (vs ! nat idx)" "centroid d0 = v_centroid (vs ! nat idx)"
      "summary d0 = v_summary (vs ! nat idx)"
      by (simp_all add: latestInv_def)
    with s(4) have i: "i = nat idx" by simp
    from r s(2) s(3) i show "latestInv d" unfolding s(5) by (simp add: latestInv_def)
  qed
  from s l show ?thesis by (simp add: countInv_def)
qed

text \<open>
  The document that the merge of \<open>processAndStore\<close> writes: the latest version is
  overwritten in place, or the new version is appended and the oldest versions beyond the
  maximum are dropped from the front. Whatever the document was, the index of its latest
  version is in range afterwards and the top-level fields are those of that version.
\<close>

lemma mergeNewVersion_shape:
  assumes "mergeNewVersion env c m nv d0 = Some d"
  shows "\<exists>vs idx. versions (legacyVersions (m_timestamp m) d0) = Some vs \<and>
           latestVersionIndex (legacyVersions (m_timestamp m) d0) = Some idx \<and>
           d_id d = d_id d0 \<and> latestInv d \<and>
           ((versions d = Some (vs[nat idx := nv]) \<and> latestVersionIndex d = Some idx \<and>
             0 \<le> idx \<and> idx < int (length vs)) \<or>
            (versions d = Some (drop (length vs + 1 - nat (maxN (versioningMaxVersions env))) (vs @ [nv])) \<and>
             latestVersionIndex d =
               Some (int (length (drop (length vs + 1 - nat (maxN (versioningMaxVersions env))) (vs @ [nv]))) - 1) \<and>
             countInv (versioningMaxVersions env) d))"
proof -
  let ?mv = "versioningMaxVersions env"
  let ?d = "legacyVersions (m_timestamp m) d0"
  from legacyVersions_some [of "m_timestamp m" d0] obtain vs idx where
    s: "versions ?d = Some vs" "latestVersionIndex ?d = Some idx" by blast
  have id: "d_id ?d = d_id d0" by (rule legacyVersions_id)
  from assms s have r: "0 \<le> idx" "idx < int (length vs)"
    by (auto simp: mergeNewVersion_def Let_def elemAt_def split: if_splits)
  then have n: "nat idx < length vs" by linarith
  let ?pe = "pushAndEvict ?mv vs nv"
  have l1: "int (length ?pe) \<le> maxN ?mv" by (rule pushAndEvict_length)
  have l2: "length ?pe \<ge> 1" by (rule pushAndEvict_length)
  have l3: "?pe ! (length ?pe - 1) = nv" by (rule pushAndEvict_last)
  from l2 have l4: "nat (int (length ?pe) - 1) = length ?pe - 1" by linarith
  from assms s r have c: "d = ?d\<lparr>versions := Some (vs[nat idx := nv]), latestVersionIndex := Some idx,
                        canonicalUrl := Some c, url := m_url m, title := m_title m,
                        timestamp := m_timestamp m, items := v_items nv,
                        centroid := v_centroid nv, summary := v_summary nv\<rparr> \<or>
      d = ?d\<lparr>versions := Some ?pe, latestVersionIndex := Some (int (length ?pe) - 1),
                        canonicalUrl := Some c, url := m_url m, title := m_title m,
                        timestamp := m_timestamp m, items := v_items nv,
                        centroid := v_centroid nv, summary := v_summary nv\<rparr>"
    by (auto simp: mergeNewVersion_def Let_def elemAt_def split: if_splits)
  then show ?thesis
  proof
    assume e: "d = ?d\<lparr>versions := Some (vs[nat idx := nv]), latestVersionIndex := Some idx,
                        canonicalUrl := Some c, url := m_url m, title := m_title m,
                        timestamp := m_timestamp m, items := v_items nv,
                        centroid := v_centroid nv, summary := v_summary nv\<rparr>"
    from r n have "latestInv d" unfolding e by (simp add: latestInv_def)
    moreover have "d_id d = d_id d0" unfolding e by (simp add: id)
    moreover have "versions d = Some (vs[nat idx := nv])" "latestVersionIndex d = Some idx"
      unfolding e by simp_all
    ultimately show ?thesis using s r by blast
  next
    assume e: "d = ?d\<lparr>versions := Some ?pe, latestVersionIndex := Some (int (length ?pe) - 1),
                        canonicalUrl := Some c, url := m_url m, title := m_title m,
                        timestamp := m_timestamp m, items := v_items nv,
                        centroid := v_centroid nv, summary := v_summary nv\<rparr>"
    from l2 have l6: "?pe \<noteq> []" by auto
    from l2 l3 l4 l6 have "latestInv d" unfolding e by (simp add: latestInv_def)
    moreover have "d_id d = d_id d0" unfolding e by (simp add: id)
    moreover have "versions d = Some (drop (length vs + 1 - nat (maxN ?mv)) (vs @ [nv]))"
      unfolding e by (simp add: pushAndEvict_drop)
    moreover have "latestVersionIndex d =
               Some (int (length (drop (length vs + 1 - nat (maxN ?mv)) (vs @ [nv]))) - 1)"
      unfolding e by (simp add: pushAndEvict_drop)
    moreover have "countInv ?mv d" using l1 unfolding e by (simp add: countInv_def)
    ultimately show ?thesis using s by blast
  qed
qed

text \<open>The same for the merge of \<open>upsertVersion\<close>, which cannot fail.\<close>

lemma upsertMerge_shape:
  "\<exists>vs idx. versions (legacyVersions (v_timestamp ver) d0) = Some vs \<and>
           latestVersionIndex (legacyVersions (v_timestamp ver) d0) = Some idx \<and>
           d_id (upsertMerge env c u t ver d0) = d_id d0 \<and> latestInv (upsertMerge env c u t ver d0) \<and>
           ((\<exists>v'. versions (upsertMerge env c u t ver d0) = Some (vs[nat idx := v']) \<and>
                  latestVersionIndex (upsertMerge env c u t ver d0) = Some idx \<and>
                  0 \<le> idx \<and> idx < int (length vs)) \<or>
            (versions (upsertMerge env c u t ver d0) =
               Some (drop (length vs + 1 - nat (maxN (versioningMaxVersions env))) (vs @ [ver])) \<and>
             latestVersionIndex (upsertMerge env c u t ver d0) =
               Some (int (length (drop (length vs + 1 - nat (maxN (versioningMaxVersions env))) (vs @ [ver]))) - 1) \<and>
             countInv (versioningMaxVersions env) (upsertMerge env c u t ver d0)))"
proof -
  let ?mv = "versioningMaxVersions env"
  let ?d = "legacyVersions (v_timestamp ver) d0"
  let ?r = "upsertMerge env c u t ver d0"
  from legacyVersions_some [of "v_timestamp ver" d0] obtain vs idx where
    s: "versions ?d = Some vs" "latestVersionIndex ?d = Some idx" by blast
  have id: "d_id ?r = d_id d0" by (simp add: upsertMerge_def Let_def legacyVersions_id)
  let ?pe = "pushAndEvict ?mv vs ver"
  have l1: "int (length ?pe) \<le> maxN ?mv" by (rule pushAndEvict_length)
  have l2: "length ?pe \<ge> 1" by (rule pushAndEvict_length)
  from l2 have l4: "nat (int (length ?pe) - 1) = length ?pe - 1" by linarith
  from l2 have l5: "length ?pe - 1 < length ?pe" by linarith
  define same where "same = (case elemAt vs idx of Some l \<Rightarrow> v_hash l = v_hash ver | None \<Rightarrow> False)"
  define sim where "sim = (case (case elemAt vs idx of None \<Rightarrow> None
                     | Some l \<Rightarrow> (case v_centroid l of Some c \<Rightarrow> Some c
                                   | None \<Rightarrow> computeCentroid (v_items l)), v_centroid ver) of
                (Some lc, Some c) \<Rightarrow> cosineSimilarity (Some c) (Some lc) \<ge> versioningSimilarityThreshold env
              | _ \<Rightarrow> False)"
  define vs1 where "vs1 = (if same
              then vs[nat idx := (vs ! nat idx)\<lparr>v_timestamp := max (v_timestamp (vs ! nat idx)) (v_timestamp ver)\<rparr>]
              else if sim then vs[nat idx := ver] else ?pe)"
  define idx1 where "idx1 = (if same \<or> sim then idx else int (length vs1) - 1)"
  have um: "?r = ?d\<lparr>versions := Some vs1, latestVersionIndex := Some idx1,
                    canonicalUrl := Some c, url := u, title := t,
                    timestamp := v_timestamp (vs1 ! nat idx1), items := v_items (vs1 ! nat idx1),
                    centroid := v_centroid (vs1 ! nat idx1), summary := v_summary (vs1 ! nat idx1)\<rparr>"
    by (simp add: upsertMerge_def Let_def s same_def sim_def vs1_def idx1_def)
  have v: "versions ?r = Some vs1" "latestVersionIndex ?r = Some idx1"
    by (simp_all add: um)
  have li: "nat idx1 < length vs1 \<Longrightarrow> 0 \<le> idx1 \<Longrightarrow> latestInv ?r"
    by (simp add: um latestInv_def)
  show ?thesis
  proof (cases "same \<or> sim")
    case True
    then have r: "0 \<le> idx" "idx < int (length vs)"
      by (auto simp: same_def sim_def elemAt_def split: if_splits option.splits)
    then have n: "nat idx < length vs" by linarith
    from True have i1: "idx1 = idx" by (simp add: idx1_def)
    from True obtain v' where v1: "vs1 = vs[nat idx := v']" by (cases same) (auto simp: vs1_def)
    from li r n have "latestInv ?r" by (simp add: i1 v1)
    with s id v r show ?thesis unfolding i1 v1 by blast
  next
    case False
    then have v1: "vs1 = ?pe" by (simp add: vs1_def)
    from False have i1: "idx1 = int (length ?pe) - 1" by (simp add: idx1_def v1)
    from l2 have l6: "?pe \<noteq> []" by auto
    from li l2 l4 l5 l6 have "latestInv ?r" by (simp add: i1 v1)
    moreover from v l1 have "countInv ?mv ?r" by (simp add: countInv_def v1)
    ultimately show ?thesis using s id v unfolding i1 v1 by (simp add: pushAndEvict_drop)
  qed
qed

lemma newDoc_inv:
  "docInv mv (\<lparr>d_id = i, canonicalUrl = cu, url = u, title = t, timestamp = ts,
      latestVersionIndex = Some 0, versions = Some [v], items = v_items v,
      centroid = v_centroid v, summary = v_summary v\<rparr>)"
  using maxN_pos [of mv] by (simp add: docInv_def latestInv_def countInv_def)

lemma putDoc_set: "set (pagesStore (putDoc d w)) \<subseteq> insert d (set (pagesStore w))"
  by (auto simp: putDoc_def)

text \<open>What a successful capture writes to the object store.\<close>

lemma processBody_Inr_cases:
  assumes b: "processBody env m w = Inr w'"
  shows "(foundDoc env m w = None \<and>
          (\<exists>nv cu. pagesStore w' = pagesStore w @
              [\<lparr>d_id = nextId w, canonicalUrl = cu, url = m_url m, title = m_title m,
                timestamp = m_timestamp m, latestVersionIndex = Some 0, versions = Some [nv],
                items = v_items nv, centroid = v_centroid nv, summary = v_summary nv\<rparr>])) \<or>
         (\<exists>d0 d. foundDoc env m w = Some d0 \<and> d0 \<in> set (pagesStore w) \<and> d_id d = d_id d0 \<and>
            pagesStore w' = map (\<lambda>p. if d_id p = d_id d0 then d else p) (pagesStore w) \<and>
            (fastPath m (contentHashOf m) (Some d0) = Some d \<or>
             (fastPath m (contentHashOf m) (Some d0) = None \<and>
              (\<exists>nv. mergeNewVersion env (canonicalizeUrl env (m_url m)) m nv d0 = Some d))))"
proof -
  let ?e = "\<lparr>p_url = m_url m, p_title = m_title m, p_timestamp = m_timestamp m,
              status = StProcessing, attempts = 0\<rparr>"
  let ?wa = "addProcessingPage ?e w"
  let ?c = "canonicalizeUrl env (m_url m)"
  let ?h = "stringHash (normalizeText (m_text m))"
  let ?found = "getByCanonicalUrl env ?c ?wa"
  have sa: "pagesStore ?wa = pagesStore w" by (simp add: addProcessingPage_frame)
  have fd: "?found = foundDoc env m w"
    unfolding foundDoc_def using getByCanonicalUrl_store [OF sa] by simp
  have fm: "\<And>d. ?found = Some d \<Longrightarrow> d \<in> set (pagesStore w)"
    using getByCanonicalUrl_mem [of env ?c ?wa] sa by simp
  have ch: "contentHashOf m = ?h" by (simp add: contentHashOf_def)
  show ?thesis
  proof (cases "fastPath m ?h ?found")
    case (Some d')
    then obtain d0 where f: "?found = Some d0" by (cases ?found) (auto simp: fastPath_def)
    from fastPath_keeps [of m ?h d0 d' 0] Some f have id: "d_id d' = d_id d0" by simp
    from b Some have "pagesStore w' = pagesStore (putDoc d' ?wa)"
      by (auto simp: processBody_def Let_def removeProcessingPage_frame removePendingCapture_frame
          split: if_splits)
    with putDoc_store [of d0 ?wa d'] fm [OF f] sa id
    have "pagesStore w' = map (\<lambda>p. if d_id p = d_id d0 then d' else p) (pagesStore w)" by simp
    with Some f fm [OF f] id show ?thesis unfolding fd ch by auto
  next
    case None
    obtain embs w2 where e: "computeEmbeddingsBatch env (chunksArr m) ?wa = (embs, w2)"
      by (cases "computeEmbeddingsBatch env (chunksArr m) ?wa")
    from computeEmbeddingsBatch_frame [OF e] sa have s2: "pagesStore w2 = pagesStore w"
      "nextId w2 = nextId w" by (simp_all add: addProcessingPage_frame)
    let ?its = "map (\<lambda>(c, e). \<lparr>i_text = c, embedding = Some e\<rparr>) (zip (chunksArr m) embs)"
    let ?nv = "\<lparr>v_timestamp = m_timestamp m, v_hash = ?h, v_items = ?its,
                v_centroid = computeCentroid ?its,
                v_summary = (if m_text m \<noteq> [] then computeSummary env (m_text m) else [])\<rparr>"
    show ?thesis
    proof (cases ?found)
      case fn: None
      let ?rec = "\<lparr>d_id = 0, canonicalUrl = Some ?c, url = m_url m, title = m_title m,
                    timestamp = m_timestamp m, latestVersionIndex = Some 0,
                    versions = Some [?nv], items = ?its, centroid = v_centroid ?nv,
                    summary = v_summary ?nv\<rparr>"
      from b None fn e have "pagesStore w' = pagesStore (addDoc ?rec w2)"
        by (auto simp: processBody_def Let_def removeProcessingPage_frame removePendingCapture_frame
            split: if_splits)
      with s2 have "pagesStore w' = pagesStore w @
              [\<lparr>d_id = nextId w, canonicalUrl = Some ?c, url = m_url m, title = m_title m,
                timestamp = m_timestamp m, latestVersionIndex = Some 0, versions = Some [?nv],
                items = v_items ?nv, centroid = v_centroid ?nv, summary = v_summary ?nv\<rparr>]"
        by (simp add: addDoc_def)
      with fn show ?thesis unfolding fd by blast
    next
      case (Some d0)
      from b None Some e obtain d where
        mg: "mergeNewVersion env ?c m ?nv d0 = Some d" and
        w1: "pagesStore w' = pagesStore (putDoc d w2)"
        by (auto simp: processBody_def Let_def removeProcessingPage_frame removePendingCapture_frame
            split: if_splits option.splits)
      from mergeNewVersion_shape [OF mg] have id: "d_id d = d_id d0" by blast
      from putDoc_store [of d0 w2 d] fm [OF Some] s2 id w1
      have "pagesStore w' = map (\<lambda>p. if d_id p = d_id d0 then d else p) (pagesStore w)" by simp
      with None Some mg fm [OF Some] id show ?thesis unfolding fd ch by auto
    qed
  qed
qed

lemma upsertVersion_cases:
  assumes r: "upsertVersion env c u t ver w = Some w'"
  shows "(getByCanonicalUrl env c w = None \<and>
          pagesStore w' = pagesStore w @
              [\<lparr>d_id = nextId w, canonicalUrl = Some c, url = u, title = t,
                timestamp = v_timestamp ver, latestVersionIndex = Some 0, versions = Some [ver],
                items = v_items ver, centroid = v_centroid ver, summary = v_summary ver\<rparr>]) \<or>
         (\<exists>d0. getByCanonicalUrl env c w = Some d0 \<and> d0 \<in> set (pagesStore w) \<and>
            pagesStore w' = map (\<lambda>p. if d_id p = d_id d0 then upsertMerge env c u t ver d0 else p)
                             (pagesStore w))"
proof (cases "getByCanonicalUrl env c w")
  case None
  with r show ?thesis by (auto simp: upsertVersion_def addDoc_def split: if_splits)
next
  case (Some d0)
  from r Some have w': "w' = putDoc (upsertMerge env c u t ver d0) w"
    by (auto simp: upsertVersion_def split: if_splits)
  from upsertMerge_shape [of ver d0 env c u t]
  have id: "d_id (upsertMerge env c u t ver d0) = d_id d0" by blast
  from putDoc_store [OF getByCanonicalUrl_mem [OF Some] id] Some getByCanonicalUrl_mem [OF Some]
  show ?thesis unfolding w' by simp
qed

text \<open>
  The invariants of the store. \<open>P\<close> is \<open>latestInv\<close> or \<open>docInv\<close> under the configured
  maximum: the fast path keeps it, a merge and a new document establish it.
\<close>

lemma written_docs:
  assumes fast: "\<And>h d0 d. fastPath m h (Some d0) = Some d \<Longrightarrow> P d0 \<Longrightarrow> P d"
    and merge: "\<And>nv d0 d. mergeNewVersion env (canonicalizeUrl env (m_url m)) m nv d0 = Some d \<Longrightarrow>
                  (versioned d0 \<longrightarrow> P d0) \<Longrightarrow> P d"
    and new: "\<And>i cu u t ts v. P \<lparr>d_id = i, canonicalUrl = cu, url = u, title = t, timestamp = ts,
                  latestVersionIndex = Some 0, versions = Some [v], items = v_items v,
                  centroid = v_centroid v, summary = v_summary v\<rparr>"
    and inv: "\<forall>p\<in>set (pagesStore w). versioned p \<longrightarrow> P p"
    and b: "processBody env m w = Inr w'"
  shows "\<forall>p\<in>set (pagesStore w'). p \<in> set (pagesStore w) \<or> P p"
proof -
  from processBody_Inr_cases [OF b] consider
    (new) nv cu where "pagesStore w' = pagesStore w @
              [\<lparr>d_id = nextId w, canonicalUrl = cu, url = m_url m, title = m_title m,
                timestamp = m_timestamp m, latestVersionIndex = Some 0, versions = Some [nv],
                items = v_items nv, centroid = v_centroid nv, summary = v_summary nv\<rparr>]"
  | (old) d0 d where "d0 \<in> set (pagesStore w)"
      "pagesStore w' = map (\<lambda>p. if d_id p = d_id d0 then d else p) (pagesStore w)"
      "fastPath m (contentHashOf m) (Some d0) = Some d \<or>
             (fastPath m (contentHashOf m) (Some d0) = None \<and>
              (\<exists>nv. mergeNewVersion env (canonicalizeUrl env (m_url m)) m nv d0 = Some d))"
    by blast
  then show ?thesis
  proof cases
    case new
    with assms(3) [of "nextId w" cu "m_url m" "m_title m" "m_timestamp m" nv] show ?thesis by auto
  next
    case old
    from old(1) inv have h: "versioned d0 \<longrightarrow> P d0" by blast
    have "P d"
    proof (cases "fastPath m (contentHashOf m) (Some d0)")
      case (Some d')
      with old(3) have e: "d' = d" by auto
      from fastPath_shape [OF Some] have "versioned d0" by (auto simp: versioned_def)
      with h fast [OF Some] e show ?thesis by simp
    next
      case None
      with old(3) obtain nv where "mergeNewVersion env (canonicalizeUrl env (m_url m)) m nv d0 = Some d"
        by auto
      from merge [OF this h] show ?thesis .
    qed
    then show ?thesis unfolding old(2) by auto
  qed
qed

lemma processAndStore_written:
  assumes fast: "\<And>h d0 d. fastPath m h (Some d0) = Some d \<Longrightarrow> P d0 \<Longrightarrow> P d"
    and merge: "\<And>nv d0 d. mergeNewVersion env (canonicalizeUrl env (m_url m)) m nv d0 = Some d \<Longrightarrow>
                  (versioned d0 \<longrightarrow> P d0) \<Longrightarrow> P d"
    and new: "\<And>i cu u t ts v. P \<lparr>d_id = i, canonicalUrl = cu, url = u, title = t, timestamp = ts,
                  latestVersionIndex = Some 0, versions = Some [v], items = v_items v,
                  centroid = v_centroid v, summary = v_summary v\<rparr>"
    and inv: "\<forall>p\<in>set (pagesStore w). versioned p \<longrightarrow> P p"
    and r: "processAndStore env m w = Inr w'"
  shows "\<forall>p\<in>set (pagesStore w'). p \<in> set (pagesStore w) \<or> P p"
proof (cases "processBody env m w")
  case (Inl wx)
  with r have "w' = handleFailure m wx"
    by (auto simp: processAndStore_def split: if_splits)
  with processBody_Inl_frame [OF Inl] show ?thesis by (simp add: handleFailure_frame)
next
  case (Inr w1)
  with r have "w' = w1" by (auto simp: processAndStore_def split: if_splits)
  with written_docs [of m P env w w1, OF fast merge new inv Inr] show ?thesis by simp
qed

lemma mergeNewVersion_docInv:
  assumes "mergeNewVersion env c m nv d0 = Some d"
    and "versioned d0 \<longrightarrow> docInv (versioningMaxVersions env) d0"
  shows "docInv (versioningMaxVersions env) d"
proof -
  let ?mv = "versioningMaxVersions env"
  from mergeNewVersion_shape [OF assms(1)] obtain vs idx where
    s: "versions (legacyVersions (m_timestamp m) d0) = Some vs" "latestInv d"
       "(versions d = Some (vs[nat idx := nv])) \<or> countInv ?mv d"
    by blast
  from assms(2) have "versioned d0 \<longrightarrow> countInv ?mv d0" by (simp add: docInv_def)
  from legacyVersions_count [OF this s(1)] have "int (length vs) \<le> maxN ?mv" .
  with s(3) have "countInv ?mv d" by (auto simp: countInv_def)
  with s(2) show ?thesis by (simp add: docInv_def)
qed

lemma upsertMerge_docInv:
  assumes "versioned d0 \<longrightarrow> docInv (versioningMaxVersions env) d0"
  shows "docInv (versioningMaxVersions env) (upsertMerge env c u t ver d0)"
proof -
  let ?mv = "versioningMaxVersions env"
  let ?r = "upsertMerge env c u t ver d0"
  from upsertMerge_shape [of ver d0 env c u t] obtain vs idx where
    s: "versions (legacyVersions (v_timestamp ver) d0) = Some vs" "latestInv ?r"
       "(\<exists>v'. versions ?r = Some (vs[nat idx := v'])) \<or> countInv ?mv ?r"
    by blast
  from assms have "versioned d0 \<longrightarrow> countInv ?mv d0" by (simp add: docInv_def)
  from legacyVersions_count [OF this s(1)] have "int (length vs) \<le> maxN ?mv" .
  with s(3) have "countInv ?mv ?r" by (auto simp: countInv_def)
  with s(2) show ?thesis by (simp add: docInv_def)
qed

lemma processAndStore_latest:
  assumes "\<forall>p\<in>set (pagesStore w). versioned p \<longrightarrow> latestInv p"
    and "processAndStore env m w = Inr w'"
  shows "\<forall>p\<in>set (pagesStore w'). p \<in> set (pagesStore w) \<or> latestInv p"
proof (rule processAndStore_written [of m latestInv env w w', OF _ _ _ assms])
  fix h d0 d assume "fastPath m h (Some d0) = Some d" "latestInv d0"
  with fastPath_keeps [of m h d0 d 0] show "latestInv d" by simp
next
  fix nv d0 d assume "mergeNewVersion env (canonicalizeUrl env (m_url m)) m nv d0 = Some d"
  from mergeNewVersion_shape [OF this] show "latestInv d" by blast
next
  fix i cu u t ts v
  from newDoc_inv [of 0 i cu u t ts v]
  show "latestInv \<lparr>d_id = i, canonicalUrl = cu, url = u, title = t, timestamp = ts,
                  latestVersionIndex = Some 0, versions = Some [v], items = v_items v,
                  centroid = v_centroid v, summary = v_summary v\<rparr>"
    by (simp add: docInv_def)
qed

lemma processAndStore_store:
  assumes "\<forall>p\<in>set (pagesStore w). versioned p \<longrightarrow> docInv (versioningMaxVersions env) p"
    and "processAndStore env m w = Inr w'"
  shows "\<forall>p\<in>set (pagesStore w'). p \<in> set (pagesStore w) \<or> docInv (versioningMaxVersions env) p"
proof (rule processAndStore_written [of m "docInv (versioningMaxVersions env)" env w w', OF _ _ _ assms])
  fix h d0 d assume "fastPath m h (Some d0) = Some d" "docInv (versioningMaxVersions env) d0"
  with fastPath_keeps [of m h d0 d "versioningMaxVersions env"]
  show "docInv (versioningMaxVersions env) d" by (simp add: docInv_def)
next
  fix nv d0 d assume "mergeNewVersion env (canonicalizeUrl env (m_url m)) m nv d0 = Some d"
    "versioned d0 \<longrightarrow> docInv (versioningMaxVersions env) d0"
  then show "docInv (versioningMaxVersions env) d" by (rule mergeNewVersion_docInv)
next
  fix i cu u t ts v
  show "docInv (versioningMaxVersions env) \<lparr>d_id = i, canonicalUrl = cu, url = u, title = t, timestamp = ts,
                  latestVersionIndex = Some 0, versions = Some [v], items = v_items v,
                  centroid = v_centroid v, summary = v_summary v\<rparr>"
    by (rule newDoc_inv)
qed

lemma upsertVersion_latest:
  assumes r: "upsertVersion env c u t ver w = Some w'"
  shows "\<forall>p\<in>set (pagesStore w'). p \<in> set (pagesStore w) \<or> latestInv p"
proof -
  from upsertVersion_cases [OF r] show ?thesis
  proof (elim disjE conjE exE)
    assume "pagesStore w' = pagesStore w @
              [\<lparr>d_id = nextId w, canonicalUrl = Some c, url = u, title = t,
                timestamp = v_timestamp ver, latestVersionIndex = Some 0, versions = Some [ver],
                items = v_items ver, centroid = v_centroid ver, summary = v_summary ver\<rparr>]"
    with newDoc_inv [of 0 "nextId w" "Some c" u t "v_timestamp ver" ver]
    show ?thesis by (auto simp: docInv_def)
  next
    fix d0
    assume st: "pagesStore w' = map (\<lambda>p. if d_id p = d_id d0 then upsertMerge env c u t ver d0 else p)
                             (pagesStore w)"
    from upsertMerge_shape [of ver d0 env c u t] have "latestInv (upsertMerge env c u t ver d0)"
      by blast
    then show ?thesis unfolding st by auto
  qed
qed

lemma upsertVersion_store:
  assumes inv: "\<forall>p\<in>set (pagesStore w). versioned p \<longrightarrow> docInv (versioningMaxVersions env) p"
    and r: "upsertVersion env c u t ver w = Some w'"
  shows "\<forall>p\<in>set (pagesStore w'). p \<in> set (pagesStore w) \<or> docInv (versioningMaxVersions env) p"
proof -
  from upsertVersion_cases [OF r] show ?thesis
  proof (elim disjE conjE exE)
    assume "pagesStore w' = pagesStore w @
              [\<lparr>d_id = nextId w, canonicalUrl = Some c, url = u, title = t,
                timestamp = v_timestamp ver, latestVersionIndex = Some 0, versions = Some [ver],
                items = v_items ver, centroid = v_centroid ver, summary = v_summary ver\<rparr>]"
    with newDoc_inv [of "versioningMaxVersions env" "nextId w" "Some c" u t "v_timestamp ver" ver]
    show ?thesis by auto
  next
    fix d0
    assume mem: "d0 \<in> set (pagesStore w)"
      and st: "pagesStore w' = map (\<lambda>p. if d_id p = d_id d0 then upsertMerge env c u t ver d0 else p)
                             (pagesStore w)"
    from mem inv have "versioned d0 \<longrightarrow> docInv (versioningMaxVersions env) d0" by blast
    from upsertMerge_docInv [OF this] show ?thesis unfolding st by auto
  qed
qed

lemma processAndStore_Inr: "m_url m \<noteq> [] \<Longrightarrow> \<exists>w'. processAndStore env m w = Inr w'"
  by (cases "processBody env m w") (simp_all add: processAndStore_def)

lemma ex_docInv: "docInv 3 exPage" "docInv 3 exPage2" "versioned exPage2" "\<not> docInv 1 exPage2"
  "latestInv exPage2" "\<not> countInv 1 exPage2"
  by (simp_all add: docInv_def latestInv_def countInv_def versioned_def exPage_def exPage2_def
      exVersion_def exItem_def maxN_def)

lemma ex_fast_run:
  assumes "pagesStore w = [d]" "canonicalUrl d = Some (js ''a'')" "d_id d = 1"
    "versions d = Some vs" "latestVersionIndex d = Some idx" "0 \<le> idx" "idx < int (length vs)"
    "v_hash (vs ! nat idx) = 1150416300" "txOk env" "canonicalizeUrl env = (\<lambda>u. u)"
  shows "\<not> isl (processAndStore env (exMsg ''a'' ''  rust   raft diagram '' 2000) w) \<and>
     pagesStore (projr (processAndStore env (exMsg ''a'' ''  rust   raft diagram '' 2000) w)) =
       [d\<lparr>versions := Some (vs[nat idx := (vs ! nat idx)\<lparr>v_timestamp := 2000\<rparr>]),
          timestamp := 2000, title := js ''t'', url := js ''a''\<rparr>]"
proof -
  let ?m = "exMsg ''a'' ''  rust   raft diagram '' 2000"
  have mm: "m_url ?m = js ''a''" "js ''a'' \<noteq> []" "m_title ?m = js ''t''" "js ''t'' \<noteq> []"
    "m_timestamp ?m = 2000" "m_text ?m = js ''  rust   raft diagram ''"
    by (simp_all add: exMsg_def js_def)
  have u: "m_url ?m \<noteq> []" by (simp add: mm)
  have g: "getByCanonicalUrl env (canonicalizeUrl env (m_url ?m)) w = Some d"
    using assms by (simp add: getByCanonicalUrl_def mm)
  have h: "v_hash (vs ! nat idx) = stringHash (normalizeText (m_text ?m))"
    using assms(8) ex_fast_msg by (simp add: mm)
  let ?d' = "d\<lparr>versions := Some (vs[nat idx := (vs ! nat idx)\<lparr>v_timestamp := 2000\<rparr>]),
          timestamp := 2000, title := js ''t'', url := js ''a''\<rparr>"
  have fp: "fastPath ?m (stringHash (normalizeText (m_text ?m))) (Some d) = Some ?d'"
    using fastPath_latest [OF assms(4) assms(5) assms(6) assms(7) h, of ?m] by (simp add: mm)
  from processAndStore_fast [OF u g fp] assms(9) obtain w' where
    w': "processAndStore env ?m w = Inr w'" "pagesStore w' = pagesStore (putDoc ?d' w)"
    by auto
  have "pagesStore (putDoc ?d' w) = [?d']"
    using assms(1) assms(3) by (simp add: putDoc_def)
  with w' show ?thesis by simp
qed

text \<open>
  C1. What every merge write leaves in the store, for any state and any input.
  \<^item> A capture or an import for a URL that is not stored adds one document with one
    version; it satisfies the whole invariant.
  \<^item> A capture that merges into a stored document (its content hash differs from that of
    the latest version), and every import into a stored document, replace that document:
    the index of its latest version is in range and its top-level items, centroid and
    summary are those of that version, whatever the document was before (a legacy document
    is given one version first). The versions are either the old ones with the latest
    overwritten in place, or the old ones followed by the new version, with the oldest
    dropped from the front so that at most \<open>max(1, maxVersions || 3)\<close> remain.
  \<^item> The fast path (same content hash) replaces the document by one that differs in time
    stamps, title and URL only: the number of versions, the index and the top-level fields
    are the old ones. It keeps an index in range and the top-level synchronisation, and it
    never truncates.
  \<^item> Hence, if all versioned documents of the store have an index in range and
    synchronised top-level fields, they have after \<open>processAndStore\<close> and \<open>upsertVersion\<close>,
    and so has every document these created or changed; the same holds for the whole
    invariant, bound on the number of versions included, as long as it held before under
    the configured maximum.
\<close>

theorem merge_write_invariant:
  "(\<forall>w'. processBody env m w = Inr w' \<and> foundDoc env m w = None \<longrightarrow>
      (\<exists>d nv. pagesStore w' = pagesStore w @ [d] \<and> versions d = Some [nv] \<and>
               docInv (versioningMaxVersions env) d)) \<and>
   (\<forall>w' d0. processBody env m w = Inr w' \<and> foundDoc env m w = Some d0 \<and>
             fastPath m (contentHashOf m) (Some d0) = None \<longrightarrow>
      (\<exists>d nv vs idx.
          pagesStore w' = map (\<lambda>p. if d_id p = d_id d0 then d else p) (pagesStore w) \<and>
          versions (legacyVersions (m_timestamp m) d0) = Some vs \<and>
          latestVersionIndex (legacyVersions (m_timestamp m) d0) = Some idx \<and>
          latestInv d \<and>
          ((versions d = Some (vs[nat idx := nv]) \<and> latestVersionIndex d = Some idx) \<or>
           (versions d = Some (drop (length vs + 1 - nat (maxN (versioningMaxVersions env))) (vs @ [nv])) \<and>
            countInv (versioningMaxVersions env) d)))) \<and>
   (\<forall>w' d0 d. processBody env m w = Inr w' \<and> foundDoc env m w = Some d0 \<and>
             fastPath m (contentHashOf m) (Some d0) = Some d \<longrightarrow>
      pagesStore w' = map (\<lambda>p. if d_id p = d_id d0 then d else p) (pagesStore w) \<and>
      map_option length (versions d) = map_option length (versions d0) \<and>
      latestVersionIndex d = latestVersionIndex d0 \<and>
      items d = items d0 \<and> centroid d = centroid d0 \<and> summary d = summary d0 \<and>
      (latestInv d0 \<longrightarrow> latestInv d) \<and>
      (countInv (versioningMaxVersions env) d \<longleftrightarrow> countInv (versioningMaxVersions env) d0)) \<and>
   (\<forall>w'. upsertVersion env c u t ver w = Some w' \<and> getByCanonicalUrl env c w = None \<longrightarrow>
      (\<exists>d. pagesStore w' = pagesStore w @ [d] \<and> versions d = Some [ver] \<and>
           docInv (versioningMaxVersions env) d)) \<and>
   (\<forall>w' d0. upsertVersion env c u t ver w = Some w' \<and> getByCanonicalUrl env c w = Some d0 \<longrightarrow>
      (\<exists>d v' vs idx.
          pagesStore w' = map (\<lambda>p. if d_id p = d_id d0 then d else p) (pagesStore w) \<and>
          versions (legacyVersions (v_timestamp ver) d0) = Some vs \<and>
          latestVersionIndex (legacyVersions (v_timestamp ver) d0) = Some idx \<and>
          latestInv d \<and>
          ((versions d = Some (vs[nat idx := v']) \<and> latestVersionIndex d = Some idx) \<or>
           (versions d = Some (drop (length vs + 1 - nat (maxN (versioningMaxVersions env))) (vs @ [ver])) \<and>
            countInv (versioningMaxVersions env) d)))) \<and>
   ((\<forall>p\<in>set (pagesStore w). versioned p \<longrightarrow> latestInv p) \<longrightarrow>
      (\<forall>w'. processAndStore env m w = Inr w' \<longrightarrow>
         (\<forall>p\<in>set (pagesStore w').
            (versioned p \<longrightarrow> latestInv p) \<and> (p \<notin> set (pagesStore w) \<longrightarrow> latestInv p))) \<and>
      (\<forall>w'. upsertVersion env c u t ver w = Some w' \<longrightarrow>
         (\<forall>p\<in>set (pagesStore w').
            (versioned p \<longrightarrow> latestInv p) \<and> (p \<notin> set (pagesStore w) \<longrightarrow> latestInv p)))) \<and>
   ((\<forall>p\<in>set (pagesStore w). versioned p \<longrightarrow> docInv (versioningMaxVersions env) p) \<longrightarrow>
      (\<forall>w'. processAndStore env m w = Inr w' \<longrightarrow>
         (\<forall>p\<in>set (pagesStore w').
            (versioned p \<longrightarrow> docInv (versioningMaxVersions env) p) \<and>
            (p \<notin> set (pagesStore w) \<longrightarrow> docInv (versioningMaxVersions env) p))) \<and>
      (\<forall>w'. upsertVersion env c u t ver w = Some w' \<longrightarrow>
         (\<forall>p\<in>set (pagesStore w').
            (versioned p \<longrightarrow> docInv (versioningMaxVersions env) p) \<and>
            (p \<notin> set (pagesStore w) \<longrightarrow> docInv (versioningMaxVersions env) p)))) \<and>
   maxN 3 = 3 \<and> maxN 0 = 3 \<and>
   (1 \<le> versioningMaxVersions env \<longrightarrow> maxN (versioningMaxVersions env) = versioningMaxVersions env)"
proof -
  let ?mv = "versioningMaxVersions env"
  have 1: "\<forall>w'. processBody env m w = Inr w' \<and> foundDoc env m w = None \<longrightarrow>
      (\<exists>d nv. pagesStore w' = pagesStore w @ [d] \<and> versions d = Some [nv] \<and> docInv ?mv d)"
  proof (intro allI impI)
    fix w' assume a: "processBody env m w = Inr w' \<and> foundDoc env m w = None"
    with processBody_Inr_cases [of env m w w'] obtain nv cu where
      "pagesStore w' = pagesStore w @
              [\<lparr>d_id = nextId w, canonicalUrl = cu, url = m_url m, title = m_title m,
                timestamp = m_timestamp m, latestVersionIndex = Some 0, versions = Some [nv],
                items = v_items nv, centroid = v_centroid nv, summary = v_summary nv\<rparr>]"
      by auto
    with newDoc_inv [of ?mv "nextId w" cu "m_url m" "m_title m" "m_timestamp m" nv]
    show "\<exists>d nv. pagesStore w' = pagesStore w @ [d] \<and> versions d = Some [nv] \<and> docInv ?mv d"
      by (intro exI [of _ "\<lparr>d_id = nextId w, canonicalUrl = cu, url = m_url m, title = m_title m,
                timestamp = m_timestamp m, latestVersionIndex = Some 0, versions = Some [nv],
                items = v_items nv, centroid = v_centroid nv, summary = v_summary nv\<rparr>"]
            exI [of _ nv]) simp
  qed
  have 2: "\<forall>w' d0. processBody env m w = Inr w' \<and> foundDoc env m w = Some d0 \<and>
             fastPath m (contentHashOf m) (Some d0) = None \<longrightarrow>
      (\<exists>d nv vs idx.
          pagesStore w' = map (\<lambda>p. if d_id p = d_id d0 then d else p) (pagesStore w) \<and>
          versions (legacyVersions (m_timestamp m) d0) = Some vs \<and>
          latestVersionIndex (legacyVersions (m_timestamp m) d0) = Some idx \<and>
          latestInv d \<and>
          ((versions d = Some (vs[nat idx := nv]) \<and> latestVersionIndex d = Some idx) \<or>
           (versions d = Some (drop (length vs + 1 - nat (maxN ?mv)) (vs @ [nv])) \<and>
            countInv ?mv d)))"
  proof (intro allI impI)
    fix w' d0
    assume a: "processBody env m w = Inr w' \<and> foundDoc env m w = Some d0 \<and>
             fastPath m (contentHashOf m) (Some d0) = None"
    with processBody_Inr_cases [of env m w w'] obtain d nv where
      st: "pagesStore w' = map (\<lambda>p. if d_id p = d_id d0 then d else p) (pagesStore w)" and
      mg: "mergeNewVersion env (canonicalizeUrl env (m_url m)) m nv d0 = Some d"
      by auto
    from mergeNewVersion_shape [OF mg] obtain vs idx where
      "versions (legacyVersions (m_timestamp m) d0) = Some vs"
      "latestVersionIndex (legacyVersions (m_timestamp m) d0) = Some idx"
      "latestInv d"
      "(versions d = Some (vs[nat idx := nv]) \<and> latestVersionIndex d = Some idx) \<or>
           (versions d = Some (drop (length vs + 1 - nat (maxN ?mv)) (vs @ [nv])) \<and>
            countInv ?mv d)"
      by blast
    with st show "\<exists>d nv vs idx.
          pagesStore w' = map (\<lambda>p. if d_id p = d_id d0 then d else p) (pagesStore w) \<and>
          versions (legacyVersions (m_timestamp m) d0) = Some vs \<and>
          latestVersionIndex (legacyVersions (m_timestamp m) d0) = Some idx \<and>
          latestInv d \<and>
          ((versions d = Some (vs[nat idx := nv]) \<and> latestVersionIndex d = Some idx) \<or>
           (versions d = Some (drop (length vs + 1 - nat (maxN ?mv)) (vs @ [nv])) \<and>
            countInv ?mv d))"
      by blast
  qed
  have 3: "\<forall>w' d0 d. processBody env m w = Inr w' \<and> foundDoc env m w = Some d0 \<and>
             fastPath m (contentHashOf m) (Some d0) = Some d \<longrightarrow>
      pagesStore w' = map (\<lambda>p. if d_id p = d_id d0 then d else p) (pagesStore w) \<and>
      map_option length (versions d) = map_option length (versions d0) \<and>
      latestVersionIndex d = latestVersionIndex d0 \<and>
      items d = items d0 \<and> centroid d = centroid d0 \<and> summary d = summary d0 \<and>
      (latestInv d0 \<longrightarrow> latestInv d) \<and>
      (countInv ?mv d \<longleftrightarrow> countInv ?mv d0)"
  proof (intro allI impI)
    fix w' d0 d
    assume a: "processBody env m w = Inr w' \<and> foundDoc env m w = Some d0 \<and>
             fastPath m (contentHashOf m) (Some d0) = Some d"
    with processBody_Inr_cases [of env m w w']
    have st: "pagesStore w' = map (\<lambda>p. if d_id p = d_id d0 then d else p) (pagesStore w)"
      by auto
    from a fastPath_keeps [of m "contentHashOf m" d0 d ?mv] st
    show "pagesStore w' = map (\<lambda>p. if d_id p = d_id d0 then d else p) (pagesStore w) \<and>
      map_option length (versions d) = map_option length (versions d0) \<and>
      latestVersionIndex d = latestVersionIndex d0 \<and>
      items d = items d0 \<and> centroid d = centroid d0 \<and> summary d = summary d0 \<and>
      (latestInv d0 \<longrightarrow> latestInv d) \<and>
      (countInv ?mv d \<longleftrightarrow> countInv ?mv d0)"
      by blast
  qed
  have 4: "\<forall>w'. upsertVersion env c u t ver w = Some w' \<and> getByCanonicalUrl env c w = None \<longrightarrow>
      (\<exists>d. pagesStore w' = pagesStore w @ [d] \<and> versions d = Some [ver] \<and> docInv ?mv d)"
  proof (intro allI impI)
    fix w' assume a: "upsertVersion env c u t ver w = Some w' \<and> getByCanonicalUrl env c w = None"
    with upsertVersion_cases [of env c u t ver w w'] have
      "pagesStore w' = pagesStore w @
              [\<lparr>d_id = nextId w, canonicalUrl = Some c, url = u, title = t,
                timestamp = v_timestamp ver, latestVersionIndex = Some 0, versions = Some [ver],
                items = v_items ver, centroid = v_centroid ver, summary = v_summary ver\<rparr>]"
      by auto
    with newDoc_inv [of ?mv "nextId w" "Some c" u t "v_timestamp ver" ver]
    show "\<exists>d. pagesStore w' = pagesStore w @ [d] \<and> versions d = Some [ver] \<and> docInv ?mv d"
      by (intro exI [of _ "\<lparr>d_id = nextId w, canonicalUrl = Some c, url = u, title = t,
                timestamp = v_timestamp ver, latestVersionIndex = Some 0, versions = Some [ver],
                items = v_items ver, centroid = v_centroid ver, summary = v_summary ver\<rparr>"]) simp
  qed
  have 5: "\<forall>w' d0. upsertVersion env c u t ver w = Some w' \<and> getByCanonicalUrl env c w = Some d0 \<longrightarrow>
      (\<exists>d v' vs idx.
          pagesStore w' = map (\<lambda>p. if d_id p = d_id d0 then d else p) (pagesStore w) \<and>
          versions (legacyVersions (v_timestamp ver) d0) = Some vs \<and>
          latestVersionIndex (legacyVersions (v_timestamp ver) d0) = Some idx \<and>
          latestInv d \<and>
          ((versions d = Some (vs[nat idx := v']) \<and> latestVersionIndex d = Some idx) \<or>
           (versions d = Some (drop (length vs + 1 - nat (maxN ?mv)) (vs @ [ver])) \<and>
            countInv ?mv d)))"
  proof (intro allI impI)
    fix w' d0
    assume a: "upsertVersion env c u t ver w = Some w' \<and> getByCanonicalUrl env c w = Some d0"
    let ?r = "upsertMerge env c u t ver d0"
    from a upsertVersion_cases [of env c u t ver w w']
    have st: "pagesStore w' = map (\<lambda>p. if d_id p = d_id d0 then ?r else p) (pagesStore w)"
      by auto
    from upsertMerge_shape [of ver d0 env c u t] obtain vs idx where
      s: "versions (legacyVersions (v_timestamp ver) d0) = Some vs"
      "latestVersionIndex (legacyVersions (v_timestamp ver) d0) = Some idx"
      "latestInv ?r"
      "(\<exists>v'. versions ?r = Some (vs[nat idx := v']) \<and> latestVersionIndex ?r = Some idx) \<or>
           (versions ?r = Some (drop (length vs + 1 - nat (maxN ?mv)) (vs @ [ver])) \<and>
            countInv ?mv ?r)"
      by blast
    then obtain v' where "(versions ?r = Some (vs[nat idx := v']) \<and> latestVersionIndex ?r = Some idx) \<or>
           (versions ?r = Some (drop (length vs + 1 - nat (maxN ?mv)) (vs @ [ver])) \<and>
            countInv ?mv ?r)"
      by blast
    with st s(1) s(2) s(3) show "\<exists>d v' vs idx.
          pagesStore w' = map (\<lambda>p. if d_id p = d_id d0 then d else p) (pagesStore w) \<and>
          versions (legacyVersions (v_timestamp ver) d0) = Some vs \<and>
          latestVersionIndex (legacyVersions (v_timestamp ver) d0) = Some idx \<and>
          latestInv d \<and>
          ((versions d = Some (vs[nat idx := v']) \<and> latestVersionIndex d = Some idx) \<or>
           (versions d = Some (drop (length vs + 1 - nat (maxN ?mv)) (vs @ [ver])) \<and>
            countInv ?mv d))"
      by blast
  qed
  have 6: "(\<forall>p\<in>set (pagesStore w). versioned p \<longrightarrow> latestInv p) \<longrightarrow>
      (\<forall>w'. processAndStore env m w = Inr w' \<longrightarrow>
         (\<forall>p\<in>set (pagesStore w').
            (versioned p \<longrightarrow> latestInv p) \<and> (p \<notin> set (pagesStore w) \<longrightarrow> latestInv p))) \<and>
      (\<forall>w'. upsertVersion env c u t ver w = Some w' \<longrightarrow>
         (\<forall>p\<in>set (pagesStore w').
            (versioned p \<longrightarrow> latestInv p) \<and> (p \<notin> set (pagesStore w) \<longrightarrow> latestInv p)))"
  proof (intro impI conjI allI ballI)
    fix w' p
    assume inv: "\<forall>p\<in>set (pagesStore w). versioned p \<longrightarrow> latestInv p"
      and "processAndStore env m w = Inr w'" and p: "p \<in> set (pagesStore w')"
    from processAndStore_latest [OF inv this(2)] p
    have d: "p \<in> set (pagesStore w) \<or> latestInv p" by blast
    with inv show "latestInv p" if "versioned p" using that by blast
    from d show "latestInv p" if "p \<notin> set (pagesStore w)" using that by blast
  next
    fix w' p
    assume inv: "\<forall>p\<in>set (pagesStore w). versioned p \<longrightarrow> latestInv p"
      and "upsertVersion env c u t ver w = Some w'" and p: "p \<in> set (pagesStore w')"
    from upsertVersion_latest [OF this(2)] p
    have d: "p \<in> set (pagesStore w) \<or> latestInv p" by blast
    with inv show "latestInv p" if "versioned p" using that by blast
    from d show "latestInv p" if "p \<notin> set (pagesStore w)" using that by blast
  qed
  have 7: "(\<forall>p\<in>set (pagesStore w). versioned p \<longrightarrow> docInv ?mv p) \<longrightarrow>
      (\<forall>w'. processAndStore env m w = Inr w' \<longrightarrow>
         (\<forall>p\<in>set (pagesStore w').
            (versioned p \<longrightarrow> docInv ?mv p) \<and> (p \<notin> set (pagesStore w) \<longrightarrow> docInv ?mv p))) \<and>
      (\<forall>w'. upsertVersion env c u t ver w = Some w' \<longrightarrow>
         (\<forall>p\<in>set (pagesStore w').
            (versioned p \<longrightarrow> docInv ?mv p) \<and> (p \<notin> set (pagesStore w) \<longrightarrow> docInv ?mv p)))"
  proof (intro impI conjI allI ballI)
    fix w' p
    assume inv: "\<forall>p\<in>set (pagesStore w). versioned p \<longrightarrow> docInv ?mv p"
      and "processAndStore env m w = Inr w'" and p: "p \<in> set (pagesStore w')"
    from processAndStore_store [OF inv this(2)] p
    have d: "p \<in> set (pagesStore w) \<or> docInv ?mv p" by blast
    with inv show "docInv ?mv p" if "versioned p" using that by blast
    from d show "docInv ?mv p" if "p \<notin> set (pagesStore w)" using that by blast
  next
    fix w' p
    assume inv: "\<forall>p\<in>set (pagesStore w). versioned p \<longrightarrow> docInv ?mv p"
      and "upsertVersion env c u t ver w = Some w'" and p: "p \<in> set (pagesStore w')"
    from upsertVersion_store [OF inv this(2)] p
    have d: "p \<in> set (pagesStore w) \<or> docInv ?mv p" by blast
    with inv show "docInv ?mv p" if "versioned p" using that by blast
    from d show "docInv ?mv p" if "p \<notin> set (pagesStore w)" using that by blast
  qed
  have 8: "maxN 3 = 3" "maxN 0 = 3" "1 \<le> ?mv \<longrightarrow> maxN ?mv = ?mv"
    by (simp_all add: maxN_def)
  from 1 2 3 4 5 6 7 8 show ?thesis by (intro conjI)
qed

text \<open>
  The example page is captured again with the same text: the fast path applies, and the
  written document satisfies the invariant under the maximum 3.
\<close>

theorem merge_write_invariant_witness:
  "docInv (versioningMaxVersions exEnv) exPage \<and>
   \<not> isl (processAndStore exEnv (exMsg ''a'' ''  rust   raft diagram '' 2000) exWorld) \<and>
   pagesStore (projr (processAndStore exEnv (exMsg ''a'' ''  rust   raft diagram '' 2000) exWorld)) =
     [exPage\<lparr>versions := Some [exVersion\<lparr>v_timestamp := 2000\<rparr>],
             timestamp := 2000, title := js ''t'', url := js ''a''\<rparr>] \<and>
   versioned (exPage\<lparr>versions := Some [exVersion\<lparr>v_timestamp := 2000\<rparr>],
             timestamp := 2000, title := js ''t'', url := js ''a''\<rparr>) \<and>
   docInv 3 (exPage\<lparr>versions := Some [exVersion\<lparr>v_timestamp := 2000\<rparr>],
             timestamp := 2000, title := js ''t'', url := js ''a''\<rparr>)"
proof -
  let ?m = "exMsg ''a'' ''  rust   raft diagram '' 2000"
  let ?p = "exPage\<lparr>versions := Some [exVersion\<lparr>v_timestamp := 2000\<rparr>],
             timestamp := 2000, title := js ''t'', url := js ''a''\<rparr>"
  have v: "versioningMaxVersions exEnv = 3" by (simp add: exEnv_def)
  have i: "docInv (versioningMaxVersions exEnv) exPage" unfolding v by (rule ex_docInv(1))
  have a: "\<forall>p\<in>set (pagesStore exWorld). versioned p \<longrightarrow> docInv (versioningMaxVersions exEnv) p"
    using i by (simp add: exWorld_def)
  have e: "txOk exEnv" "canonicalizeUrl exEnv = (\<lambda>u. u)" by (simp_all add: exEnv_def)
  have w: "pagesStore exWorld = [exPage]" by (simp add: exWorld_def)
  have r: "\<not> isl (processAndStore exEnv ?m exWorld) \<and>
      pagesStore (projr (processAndStore exEnv ?m exWorld)) = [?p]"
    using ex_fast_run [OF w, of "[exVersion]" 0 exEnv] e by (simp add: exPage_def exVersion_def)
  then have q: "processAndStore exEnv ?m exWorld = Inr (projr (processAndStore exEnv ?m exWorld))"
    by simp
  have vp: "versioned ?p" by (simp add: versioned_def exPage_def)
  note t = merge_write_invariant [where env = exEnv and m = ?m and w = exWorld]
  from t a have "\<forall>w'. processAndStore exEnv ?m exWorld = Inr w' \<longrightarrow>
      (\<forall>p\<in>set (pagesStore w'). versioned p \<longrightarrow> docInv 3 p)"
    unfolding v by blast
  with q have "\<forall>p\<in>set (pagesStore (projr (processAndStore exEnv ?m exWorld))). versioned p \<longrightarrow> docInv 3 p"
    by blast
  with r vp have "docInv 3 ?p" by simp
  with i r vp show ?thesis by blast
qed

text \<open>
  The claim as written promises at most the configured maximum of versions after every
  merge write. The example page with two versions satisfies the invariant under the
  maximum 3. After the maximum has been lowered to 1, a capture of the same content takes
  the fast path and writes the document back with both versions.
\<close>

theorem merge_write_counterexample:
  "docInv 3 exPage2 \<and> versioningMaxVersions exEnvMax1 = 1 \<and> maxN 1 = 1 \<and>
   \<not> isl (processAndStore exEnvMax1 (exMsg ''a'' ''  rust   raft diagram '' 2000) exWorld2) \<and>
   pagesStore (projr (processAndStore exEnvMax1 (exMsg ''a'' ''  rust   raft diagram '' 2000) exWorld2)) =
     [exPage2\<lparr>versions := Some [exVersion\<lparr>v_timestamp := 500, v_hash := 1\<rparr>,
                                 exVersion\<lparr>v_timestamp := 2000\<rparr>],
               timestamp := 2000, title := js ''t'', url := js ''a''\<rparr>] \<and>
   \<not> countInv (versioningMaxVersions exEnvMax1)
        (exPage2\<lparr>versions := Some [exVersion\<lparr>v_timestamp := 500, v_hash := 1\<rparr>,
                                 exVersion\<lparr>v_timestamp := 2000\<rparr>],
               timestamp := 2000, title := js ''t'', url := js ''a''\<rparr>) \<and>
   \<not> docInv (versioningMaxVersions exEnvMax1)
        (exPage2\<lparr>versions := Some [exVersion\<lparr>v_timestamp := 500, v_hash := 1\<rparr>,
                                 exVersion\<lparr>v_timestamp := 2000\<rparr>],
               timestamp := 2000, title := js ''t'', url := js ''a''\<rparr>)"
proof -
  have e: "txOk exEnvMax1" "canonicalizeUrl exEnvMax1 = (\<lambda>u. u)" "versioningMaxVersions exEnvMax1 = 1"
    by (simp_all add: exEnv_def exEnvMax1_def)
  have w2: "pagesStore exWorld2 = [exPage2]" by (simp add: exWorld2_def)
  have 3: "\<not> isl (processAndStore exEnvMax1 (exMsg ''a'' ''  rust   raft diagram '' 2000) exWorld2) \<and>
     pagesStore (projr (processAndStore exEnvMax1 (exMsg ''a'' ''  rust   raft diagram '' 2000) exWorld2)) =
     [exPage2\<lparr>versions := Some [exVersion\<lparr>v_timestamp := 500, v_hash := 1\<rparr>,
                                 exVersion\<lparr>v_timestamp := 2000\<rparr>],
               timestamp := 2000, title := js ''t'', url := js ''a''\<rparr>]"
    using ex_fast_run [OF w2, of "[exVersion\<lparr>v_timestamp := 500, v_hash := 1\<rparr>, exVersion]" 1 exEnvMax1] e
    by (simp add: exPage2_def exPage_def exVersion_def)
  have 4: "\<not> countInv (versioningMaxVersions exEnvMax1)
        (exPage2\<lparr>versions := Some [exVersion\<lparr>v_timestamp := 500, v_hash := 1\<rparr>,
                                 exVersion\<lparr>v_timestamp := 2000\<rparr>],
               timestamp := 2000, title := js ''t'', url := js ''a''\<rparr>)"
    unfolding e by (simp add: countInv_def exPage2_def exPage_def maxN_def)
  then have 5: "\<not> docInv (versioningMaxVersions exEnvMax1)
        (exPage2\<lparr>versions := Some [exVersion\<lparr>v_timestamp := 500, v_hash := 1\<rparr>,
                                 exVersion\<lparr>v_timestamp := 2000\<rparr>],
               timestamp := 2000, title := js ''t'', url := js ''a''\<rparr>)"
    by (simp add: docInv_def)
  have 6: "maxN 1 = 1" by (simp add: maxN_def)
  from ex_docInv(2) e(3) 3 4 5 6 show ?thesis by blast
qed

subsection \<open>No hits in askQuestion\<close>

lemma foldl_addHit_Nil_iff: "foldl addHit hm hits = [] \<longleftrightarrow> hm = [] \<and> hits = []"
proof (induction hits arbitrary: hm)
  case Nil
  show ?case by simp
next
  case (Cons h hits)
  have "addHit hm h \<noteq> []" by (cases hm) (auto split: if_splits)
  with Cons show ?case by simp
qed

lemma searchInto_empty:
  "searchMemory env sub = None \<or> searchMemory env sub = Some [] \<Longrightarrow> searchInto env hm sub = hm"
  by (auto simp: searchInto_def)

lemma collect_no_hits:
  assumes "\<forall>sub\<in>set qs. searchMemory env sub = None \<or> searchMemory env sub = Some []"
  shows "foldl (searchInto env) hm qs = hm"
  using assms by (induction qs arbitrary: hm) (simp_all add: searchInto_empty)

text \<open>
  C9. When the models are reachable and the retrieval over all sub-queries leaves no
  deduplicated hit (in particular when every sub-query search fails or returns
  nothing), \<open>askQuestion\<close> returns the literal string "No relevant context found." and
  makes no call of the extract pass, of the tool loop or of the compose pass.
\<close>

theorem askQuestion_no_hits:
  assumes "checkModelsOnline env \<noteq> Some False"
  shows "(collectHits env question = [] \<longrightarrow>
            fst (askQuestion env question) = PlainText (js ''No relevant context found.'') \<and>
            StageExtract \<notin> set (snd (askQuestion env question)) \<and>
            StageExtractTools \<notin> set (snd (askQuestion env question)) \<and>
            StageCompose \<notin> set (snd (askQuestion env question))) \<and>
         ((\<forall>sub\<in>set (subQueriesOf env question).
              searchMemory env sub = None \<or> searchMemory env sub = Some []) \<longrightarrow>
            collectHits env question = [])"
proof (intro conjI impI)
  assume c: "collectHits env question = []"
  with assms have r: "askQuestion env question =
      (PlainText noContext, StageDecompose # map StageSearch (subQueriesOf env question))"
    by (simp add: askQuestion_def Let_def)
  show "fst (askQuestion env question) = PlainText (js ''No relevant context found.'')"
    unfolding r by (simp add: noContext_def)
  show "StageExtract \<notin> set (snd (askQuestion env question))" unfolding r by auto
  show "StageExtractTools \<notin> set (snd (askQuestion env question))" unfolding r by auto
  show "StageCompose \<notin> set (snd (askQuestion env question))" unfolding r by auto
next
  assume "\<forall>sub\<in>set (subQueriesOf env question).
              searchMemory env sub = None \<or> searchMemory env sub = Some []"
  from collect_no_hits [OF this, of "[]"] show "collectHits env question = []"
    by (simp add: collectHits_def)
qed

theorem askQuestion_no_hits_witness:
  "checkModelsOnline exAskEnv \<noteq> Some False \<and>
   collectHits exAskEnv (js ''q'') = [] \<and>
   fst (askQuestion exAskEnv (js ''q'')) = PlainText (js ''No relevant context found.'') \<and>
   StageExtract \<notin> set (snd (askQuestion exAskEnv (js ''q''))) \<and>
   StageCompose \<notin> set (snd (askQuestion exAskEnv (js ''q'')))"
proof -
  have o: "checkModelsOnline exAskEnv \<noteq> Some False" by (simp add: exAskEnv_def)
  have s: "\<forall>sub\<in>set (subQueriesOf exAskEnv (js ''q'')).
      searchMemory exAskEnv sub = None \<or> searchMemory exAskEnv sub = Some []"
    by (simp add: exAskEnv_def)
  note t = askQuestion_no_hits [OF o, of "js ''q''"]
  from t s have c: "collectHits exAskEnv (js ''q'') = []" by blast
  from t c have "fst (askQuestion exAskEnv (js ''q'')) = PlainText (js ''No relevant context found.'')"
    "StageExtract \<notin> set (snd (askQuestion exAskEnv (js ''q'')))"
    "StageCompose \<notin> set (snd (askQuestion exAskEnv (js ''q'')))" by blast+
  with o c show ?thesis by blast
qed

subsection \<open>Tool loop of the extract pass\<close>

lemma stepCap_bounds: "0 \<le> stepCap env" "stepCap env \<le> 2"
  by (simp_all add: stepCap_def)

lemma stepCap_cases:
  "1 \<le> maxToolSteps env \<Longrightarrow> stepCap env = min (maxToolSteps env) 2"
  "maxToolSteps env = 0 \<Longrightarrow> stepCap env = 2"
  "maxToolSteps env < 0 \<Longrightarrow> stepCap env = 0"
  by (simp_all add: stepCap_def)

lemma toolRounds_simps:
  "toolRounds [] = 0" "toolRounds (tr @ tr') = toolRounds tr + toolRounds tr'"
  "toolRounds (StageExtractTools # tr) = Suc (toolRounds tr)"
  "s \<noteq> StageExtractTools \<Longrightarrow> toolRounds (s # tr) = toolRounds tr"
  by (simp_all add: toolRounds_def)

lemma runTools_rounds:
  "runTools env tcs messages rt tr = (m1, rt1, tr1) \<Longrightarrow> toolRounds tr1 = toolRounds tr"
proof (induction tcs arbitrary: messages rt tr)
  case Nil
  then show ?case by simp
next
  case (Cons tc tcs)
  obtain res rta where r: "runToolCall env rt tc = (res, rta)" by (cases "runToolCall env rt tc")
  with Cons.prems have "runTools env tcs
      (messages @ [\<lparr>role = RoleTool, content = res, tool_calls = [], toolName = tc_name tc\<rparr>])
      rta (tr @ [StageTool tc]) = (m1, rt1, tr1)" by simp
  from Cons.IH [OF this] show ?case by (simp add: toolRounds_simps)
qed

lemma toolLoop_rounds:
  "toolLoop env cap steps json messages rt tr = (j, rt', n, thr, tr') \<Longrightarrow>
     steps \<le> n \<and> int n \<le> max (int steps) cap \<and> toolRounds tr' = toolRounds tr + (n - steps)"
proof (induction env cap steps json messages rt tr rule: toolLoop.induct)
  case (1 env cap steps json messages rt tr)
  show ?case
  proof (cases "int steps < cap")
    case False
    with "1.prems" show ?thesis by simp
  next
    case True
    obtain m1 rt1 tr1 where rt: "runTools env (r_tool_calls json) messages rt tr = (m1, rt1, tr1)"
      by (cases "runTools env (r_tool_calls json) messages rt tr") auto
    note c = runTools_rounds [OF rt]
    let ?m2 = "m1 @ [\<lparr>role = RoleUser, content = updatePrompt, tool_calls = [], toolName = []\<rparr>]"
    let ?tr2 = "tr1 @ [StageExtractTools]"
    show ?thesis
    proof (cases "chat env ?m2")
      case ChatThrows
      with "1.prems" True rt c show ?thesis by (auto simp: Let_def toolRounds_simps)
    next
      case ChatNotOk
      with "1.prems" True rt c show ?thesis by (auto simp: Let_def toolRounds_simps)
    next
      case (ChatOk j2)
      show ?thesis
      proof (cases "r_tool_calls j2 \<noteq> []")
        case False
        with "1.prems" True rt c ChatOk show ?thesis by (auto simp: Let_def toolRounds_simps)
      next
        case t: True
        with "1.prems" True rt ChatOk have
          r: "toolLoop env cap (steps + 1) j2 (?m2 @ [assistantMsg j2]) rt1 ?tr2 = (j, rt', n, thr, tr')"
          by (simp add: Let_def)
        from "1.IH" [OF True rt [symmetric] refl refl refl ChatOk t r] c True
        show ?thesis by (auto simp: toolRounds_simps)
      qed
    qed
  qed
qed

lemma toolLoop_adversarial:
  "\<forall>ms. \<exists>j. chat env ms = ChatOk j \<and> r_tool_calls j \<noteq> [] \<Longrightarrow>
   int (fst (snd (snd (toolLoop env cap steps json messages rt tr)))) = max (int steps) cap"
proof (induction env cap steps json messages rt tr rule: toolLoop.induct)
  case (1 env cap steps json messages rt tr)
  show ?case
  proof (cases "int steps < cap")
    case False
    then show ?thesis by simp
  next
    case True
    obtain m1 rt1 tr1 where rt: "runTools env (r_tool_calls json) messages rt tr = (m1, rt1, tr1)"
      by (cases "runTools env (r_tool_calls json) messages rt tr") auto
    let ?m2 = "m1 @ [\<lparr>role = RoleUser, content = updatePrompt, tool_calls = [], toolName = []\<rparr>]"
    let ?tr2 = "tr1 @ [StageExtractTools]"
    from "1.prems" obtain j2 where c: "chat env ?m2 = ChatOk j2" "r_tool_calls j2 \<noteq> []" by blast
    from "1.IH" [OF True rt [symmetric] refl refl refl c(1) c(2) "1.prems"] True rt c
    show ?thesis by (simp add: Let_def)
  qed
qed

lemma extractPass_rounds:
  assumes "extractPass env q hs = (e, us, tr)"
  shows "toolRounds tr \<le> 2"
proof (cases "\<exists>json. chat env (extractMessages env q hs) = ChatOk json \<and> enableTools env \<and> r_tool_calls json \<noteq> []")
  case False
  with assms have "tr = [StageExtract]"
    by (auto simp: extractPass_def Let_def split: chatResult.splits if_splits)
  then show ?thesis by (simp add: toolRounds_simps)
next
  case True
  then obtain json where j: "chat env (extractMessages env q hs) = ChatOk json"
    "enableTools env" "r_tool_calls json \<noteq> []" by blast
  obtain j1 rt1 n thr tr1 where
    l: "toolLoop env (stepCap env) 0 json (extractMessages env q hs @ [assistantMsg json])
          (newRuntime env) [StageExtract] = (j1, rt1, n, thr, tr1)"
    by (metis prod_cases5)
  from assms j l have t: "tr = tr1" by (simp add: extractPass_def Let_def)
  from toolLoop_rounds [OF l] stepCap_bounds [of env]
  have "toolRounds tr1 = n" "int n \<le> 2" by (auto simp: toolRounds_simps)
  with t show ?thesis by simp
qed

lemma toolRounds_tr0: "toolRounds (StageDecompose # map StageSearch qs) = 0"
  by (induction qs) (simp_all add: toolRounds_def)

lemma askQuestion_rounds: "toolRounds (snd (askQuestion env question)) \<le> 2"
proof -
  let ?tr0 = "StageDecompose # map StageSearch (subQueriesOf env question)"
  let ?hs = "topHitsOf env question (collectHits env question)"
  obtain e us tr1 where x: "extractPass env question ?hs = (e, us, tr1)"
    by (cases "extractPass env question ?hs") auto
  from extractPass_rounds [OF x] have "toolRounds (?tr0 @ tr1 @ [StageCompose]) \<le> 2"
    using toolRounds_tr0 [of "subQueriesOf env question"]
    by (simp add: toolRounds_simps del: toolRounds_tr0)
  then show ?thesis
    using toolRounds_tr0 [of "subQueriesOf env question"]
    by (simp add: askQuestion_def Let_def x toolRounds_simps)
qed

text \<open>
  C8 (as the code has it). The tool loop of the extract pass runs at most 2 rounds and
  ends for every provider and every tool runtime, also when every response asks for more
  tool calls (then it runs exactly \<open>stepCap\<close> rounds): a whole run of \<open>askQuestion\<close>
  contains at most 2 rounds. The cap is \<open>max(0, min(maxToolSteps || 2, 2))\<close>: it is
  \<open>min(maxToolSteps, 2)\<close> for a setting of 1 or more, 0 for a negative setting, and 2 for
  the setting 0, which the code reads as unset. The claim as written gives
  \<open>min(maxToolSteps, 2)\<close> as the cap; the counterexample below is the setting 0, where
  the cap is 2 and a provider that keeps asking for tools gets 2 rounds.
\<close>

theorem toolLoop_bounded:
  "0 \<le> stepCap env \<and> stepCap env \<le> 2 \<and>
   (1 \<le> maxToolSteps env \<longrightarrow> stepCap env = min (maxToolSteps env) 2) \<and>
   (maxToolSteps env = 0 \<longrightarrow> stepCap env = 2) \<and>
   (maxToolSteps env < 0 \<longrightarrow> stepCap env = 0) \<and>
   (\<exists>j rt n thr tr.
      toolLoop env (stepCap env) 0 json messages rt0 tr0 = (j, rt, n, thr, tr) \<and>
      int n \<le> stepCap env \<and> n \<le> 2 \<and> toolRounds tr = toolRounds tr0 + n) \<and>
   toolRounds (snd (askQuestion env question)) \<le> 2 \<and>
   ((\<forall>ms. \<exists>j. chat env ms = ChatOk j \<and> r_tool_calls j \<noteq> []) \<longrightarrow>
      int (fst (snd (snd (toolLoop env (stepCap env) 0 json messages rt0 tr0)))) = stepCap env)"
proof -
  obtain j rt n thr tr where
    l: "toolLoop env (stepCap env) 0 json messages rt0 tr0 = (j, rt, n, thr, tr)"
    by (metis prod_cases5)
  from toolLoop_rounds [OF l] stepCap_bounds [of env]
  have b: "int n \<le> stepCap env" "n \<le> 2" "toolRounds tr = toolRounds tr0 + n" by auto
  with l have e: "\<exists>j rt n thr tr.
      toolLoop env (stepCap env) 0 json messages rt0 tr0 = (j, rt, n, thr, tr) \<and>
      int n \<le> stepCap env \<and> n \<le> 2 \<and> toolRounds tr = toolRounds tr0 + n" by blast
  have a: "(\<forall>ms. \<exists>j. chat env ms = ChatOk j \<and> r_tool_calls j \<noteq> []) \<longrightarrow>
      int (fst (snd (snd (toolLoop env (stepCap env) 0 json messages rt0 tr0)))) = stepCap env"
    using toolLoop_adversarial [of env "stepCap env" 0 json messages rt0 tr0] stepCap_bounds(1) [of env]
    by auto
  from e a stepCap_bounds [of env] stepCap_cases [of env] askQuestion_rounds [of env question]
  show ?thesis by blast
qed

lemma ex_ask: "maxToolSteps exAskEnv = 0" "chat exAskEnv = (\<lambda>ms. ChatOk exReply)"
  "r_tool_calls exReply \<noteq> []"
  by (simp_all add: exAskEnv_def exReply_def)

theorem toolLoop_bounded_witness:
  "(\<forall>ms. \<exists>j. chat exAskEnv ms = ChatOk j \<and> r_tool_calls j \<noteq> []) \<and>
   maxToolSteps exAskEnv = 0 \<and> stepCap exAskEnv = 2 \<and>
   int (fst (snd (snd (toolLoop exAskEnv (stepCap exAskEnv) 0 exReply [] () [])))) = 2 \<and>
   toolRounds (snd (askQuestion exAskEnv (js ''q''))) \<le> 2"
proof -
  have a: "\<forall>ms. \<exists>j. chat exAskEnv ms = ChatOk j \<and> r_tool_calls j \<noteq> []"
    by (simp add: ex_ask)
  note t = toolLoop_bounded [of exAskEnv exReply "[]" "()" "[]" "js ''q''"]
  from t ex_ask(1) have c: "stepCap exAskEnv = 2" by blast
  from t a have "int (fst (snd (snd (toolLoop exAskEnv (stepCap exAskEnv) 0 exReply [] () [])))) =
      stepCap exAskEnv" by blast
  with c have r: "int (fst (snd (snd (toolLoop exAskEnv (stepCap exAskEnv) 0 exReply [] () [])))) = 2"
    by simp
  from t have q: "toolRounds (snd (askQuestion exAskEnv (js ''q''))) \<le> 2" by blast
  from a ex_ask(1) c r q show ?thesis by blast
qed

theorem stepCap_zero_counterexample:
  "maxToolSteps exAskEnv = 0 \<and> min (maxToolSteps exAskEnv) 2 = 0 \<and> stepCap exAskEnv = 2 \<and>
   fst (snd (snd (toolLoop exAskEnv (stepCap exAskEnv) 0 exReply [] () []))) = 2"
proof -
  have a: "\<forall>ms. \<exists>j. chat exAskEnv ms = ChatOk j \<and> r_tool_calls j \<noteq> []"
    by (simp add: ex_ask)
  have c: "stepCap exAskEnv = 2" by (simp add: stepCap_def ex_ask)
  from toolLoop_adversarial [OF a, of "stepCap exAskEnv" 0 exReply "[]" "()" "[]"]
  have "int (fst (snd (snd (toolLoop exAskEnv (stepCap exAskEnv) 0 exReply [] () [])))) = 2"
    unfolding c by simp
  then have "fst (snd (snd (toolLoop exAskEnv (stepCap exAskEnv) 0 exReply [] () []))) = 2"
    by linarith
  with c ex_ask(1) show ?thesis by simp
qed

subsection \<open>Import and embedding dimension\<close>

















lemma pageVersions_set:
  "set (pageVersions now src) =
     set (if sp_versions src \<noteq> [] then sp_versions src
          else [\<lparr>sv_timestamp = Some (case sp_timestamp src of Some t \<Rightarrow> t | None \<Rightarrow> now),
                 sv_hash = None, sv_items = sp_items src, sv_centroid = None,
                 sv_summary = sp_summary src\<rparr>])"
  by (simp add: pageVersions_def)
























end
